theory Spec2Isabelle
  imports Main "HOL-Library.Sublist"
begin

section \<open>Strings\<close>

text \<open>
  The strings of the extension (rule lines, request URLs) are modelled as \<open>string\<close>,
  one \<open>char\<close> per code unit, for code units below 256 (Latin-1). There
  \<^verbatim>\<open>String.prototype.toLowerCase\<close> works code unit by code unit: it adds 32 to the
  letters \<open>A\<close> to \<open>Z\<close> (65 to 90) and to the accented capitals 192 to 222 other than the
  multiplication sign 215, and leaves every other code unit as it is.
\<close>

definition toLowerCase_char :: "char \<Rightarrow> char" where
  "toLowerCase_char c =
     (let n = (of_char c :: nat)
      in if (65 \<le> n \<and> n \<le> 90) \<or> (192 \<le> n \<and> n \<le> 214) \<or> (216 \<le> n \<and> n \<le> 222)
         then char_of (n + 32) else c)"

definition toLowerCase :: "string \<Rightarrow> string" where
  "toLowerCase s = map toLowerCase_char s"

text \<open>
  \<^verbatim>\<open>trim\<close> removes white space at both ends: tab, line feed, vertical tab, form feed,
  carriage return, space and the no-break space 160.
\<close>

definition isWhiteSpace :: "char \<Rightarrow> bool" where
  "isWhiteSpace c = ((of_char c :: nat) \<in> {9, 10, 11, 12, 13, 32, 160})"

definition trim :: "string \<Rightarrow> string" where
  "trim s = rev (dropWhile isWhiteSpace (rev (dropWhile isWhiteSpace s)))"

definition startsWith :: "string \<Rightarrow> string \<Rightarrow> bool" where
  "startsWith s p = prefix p s"

definition endsWith :: "string \<Rightarrow> string \<Rightarrow> bool" where
  "endsWith s p = suffix p s"

fun includes_str :: "string \<Rightarrow> string \<Rightarrow> bool" where
  "includes_str [] needle = (needle = [])"
| "includes_str (c # rest) needle = (prefix needle (c # rest) \<or> includes_str rest needle)"

section \<open>FilterTrie\<close>

text \<open>
  \<^verbatim>\<open>class TrieNode { children = new Map(); isPattern = false; category = null }\<close>.
  Only \<^verbatim>\<open>has\<close>, \<^verbatim>\<open>get\<close> and \<^verbatim>\<open>set\<close> are used on \<^verbatim>\<open>children\<close>, so the order of the
  JavaScript \<^verbatim>\<open>Map\<close> is not observable there and the children are a partial function.
  The loader passes the categories \<^verbatim>\<open>'Ad'\<close> and \<^verbatim>\<open>'Tracker'\<close> only.
\<close>

datatype category = Ad | Tracker

datatype TrieNode =
  TrieNode (children: "char \<Rightarrow> TrieNode option") (isPattern: bool) (category: "category option")

definition new_TrieNode :: TrieNode where
  "new_TrieNode = TrieNode (\<lambda>_. None) False None"

record FilterTrie =
  root :: TrieNode
  patternCount :: nat

definition new_FilterTrie :: FilterTrie where
  "new_FilterTrie = \<lparr>root = new_TrieNode, patternCount = 0\<rparr>"

subsection \<open>\<^verbatim>\<open>_cleanPattern\<close>\<close>

text \<open>\<^verbatim>\<open>.replace(/^\|\|/, '')\<close>: one leading \<^verbatim>\<open>||\<close> is removed, when there is one.\<close>

fun strip_leading_bars :: "string \<Rightarrow> string" where
  "strip_leading_bars (a # b # rest) =
     (if a = CHR ''|'' \<and> b = CHR ''|'' then rest else a # b # rest)"
| "strip_leading_bars s = s"

text \<open>\<^verbatim>\<open>.replace(/^\|/, '')\<close>: one leading \<^verbatim>\<open>|\<close> is removed.\<close>

fun strip_leading_bar :: "string \<Rightarrow> string" where
  "strip_leading_bar (a # rest) = (if a = CHR ''|'' then rest else a # rest)"
| "strip_leading_bar [] = []"

text \<open>\<^verbatim>\<open>.replace(/\|$/, '')\<close>: one trailing \<^verbatim>\<open>|\<close> is removed.\<close>

definition strip_trailing_bar :: "string \<Rightarrow> string" where
  "strip_trailing_bar s = (if s \<noteq> [] \<and> last s = CHR ''|'' then butlast s else s)"

text \<open>\<^verbatim>\<open>.replace(/\*/g, '')\<close> and \<^verbatim>\<open>.replace(/\^/g, '')\<close>: every occurrence is removed.\<close>

definition remove_all :: "char \<Rightarrow> string \<Rightarrow> string" where
  "remove_all c s = filter (\<lambda>x. x \<noteq> c) s"

definition cleanPattern :: "string \<Rightarrow> string" where
  "cleanPattern pattern =
     toLowerCase (remove_all (CHR ''^'') (remove_all (CHR ''*'')
       (strip_trailing_bar (strip_leading_bar (strip_leading_bars pattern)))))"

subsection \<open>\<^verbatim>\<open>insert\<close>\<close>

text \<open>
  The loop of \<^verbatim>\<open>insert\<close> walks down from the root, creating a child where none exists,
  and marks the node it ends on. The nodes are mutated in place; the model rebuilds the
  path it walked. \<^verbatim>\<open>for (const char of cleanPattern)\<close> takes the pattern code point by
  code point, and \<^verbatim>\<open>_searchFrom\<close> reads \<^verbatim>\<open>url[i]\<close> code unit by code unit; below 256
  every code point is one code unit, and the two walks use the same keys. A pattern
  with a character outside the Basic Multilingual Plane, stored under a key of two
  code units that no search looks up, is outside this model.
\<close>

fun insert_from :: "TrieNode \<Rightarrow> string \<Rightarrow> category \<Rightarrow> TrieNode" where
  "insert_from node [] cat = TrieNode (children node) True (Some cat)"
| "insert_from node (ch # rest) cat =
     (let child = (case children node ch of None \<Rightarrow> new_TrieNode | Some n \<Rightarrow> n)
      in TrieNode ((children node)(ch \<mapsto> insert_from child rest cat))
           (isPattern node) (category node))"

definition FilterTrie_insert :: "FilterTrie \<Rightarrow> string \<Rightarrow> category \<Rightarrow> FilterTrie" where
  "FilterTrie_insert ft pattern cat =
     \<lparr>root = insert_from (root ft) (cleanPattern pattern) cat,
      patternCount = patternCount ft + 1\<rparr>"

text \<open>A pattern store is built by a sequence of \<^verbatim>\<open>insert\<close> calls on the empty trie.\<close>

definition insert_all :: "(string \<times> category) list \<Rightarrow> FilterTrie" where
  "insert_all rules = foldl (\<lambda>ft (p, c). FilterTrie_insert ft p c) new_FilterTrie rules"

text \<open>
  The category given by the last of the inserts whose pattern cleans to \<open>s\<close>, when
  there is one.
\<close>

definition inserted_category :: "(string \<times> category) list \<Rightarrow> string \<Rightarrow> category option" where
  "inserted_category rules s = map_of (rev (map (\<lambda>(p, c). (cleanPattern p, c)) rules)) s"

subsection \<open>\<^verbatim>\<open>matches\<close> and \<^verbatim>\<open>_searchFrom\<close>\<close>

text \<open>
  The result of a search is \<^verbatim>\<open>{ matched: true, category: node.category }\<close> or
  \<^verbatim>\<open>null\<close>, here \<open>None\<close>.
\<close>

record match_result =
  matched :: bool
  result_category :: "category option"

text \<open>
  The loop of \<^verbatim>\<open>_searchFrom\<close>, on the code units from index \<open>i\<close> on. It runs while
  \<^verbatim>\<open>i < url.length && node\<close>: a node that is terminal returns before its child is
  looked up; after the loop, \<^verbatim>\<open>node?.isPattern\<close> decides.
\<close>

fun searchFrom_loop :: "TrieNode option \<Rightarrow> string \<Rightarrow> match_result option" where
  "searchFrom_loop None rest = None"
| "searchFrom_loop (Some node) [] =
     (if isPattern node then Some \<lparr>matched = True, result_category = category node\<rparr>
      else None)"
| "searchFrom_loop (Some node) (ch # rest) =
     (if isPattern node then Some \<lparr>matched = True, result_category = category node\<rparr>
      else searchFrom_loop (children node ch) rest)"

definition searchFrom :: "FilterTrie \<Rightarrow> string \<Rightarrow> nat \<Rightarrow> match_result option" where
  "searchFrom ft url startIdx = searchFrom_loop (Some (root ft)) (drop startIdx url)"

function matches_loop :: "FilterTrie \<Rightarrow> string \<Rightarrow> nat \<Rightarrow> match_result option" where
  "matches_loop ft cleanUrl i =
     (if i < length cleanUrl then
        (case searchFrom ft cleanUrl i of
           Some result \<Rightarrow> Some result
         | None \<Rightarrow> matches_loop ft cleanUrl (i + 1))
      else None)"
  by pat_completeness auto
termination
  by (relation "measure (\<lambda>(ft, cleanUrl, i). length cleanUrl - i)") auto

declare matches_loop.simps [simp del]

definition matches :: "FilterTrie \<Rightarrow> string \<Rightarrow> match_result option" where
  "matches ft url = matches_loop ft (toLowerCase url) 0"

subsection \<open>Stored patterns\<close>

text \<open>
  \<open>walk node s\<close> is the node reached from \<open>node\<close> along the characters of \<open>s\<close>. A string
  \<open>s\<close> is a stored pattern of the trie when that node exists and is terminal;
  \<open>stored node s\<close> is then \<open>Some\<close> of its category, and \<open>None\<close> otherwise.
  \<open>first_stored node rest p\<close> says that \<open>p\<close> is the shortest stored pattern that is a
  prefix of \<open>rest\<close>.
\<close>

fun walk :: "TrieNode \<Rightarrow> string \<Rightarrow> TrieNode option" where
  "walk node [] = Some node"
| "walk node (ch # rest) =
     (case children node ch of None \<Rightarrow> None | Some n \<Rightarrow> walk n rest)"

definition stored :: "TrieNode \<Rightarrow> string \<Rightarrow> category option option" where
  "stored node s =
     (case walk node s of
        Some n \<Rightarrow> if isPattern n then Some (category n) else None
      | None \<Rightarrow> None)"

definition first_stored :: "TrieNode \<Rightarrow> string \<Rightarrow> string \<Rightarrow> bool" where
  "first_stored node rest p \<longleftrightarrow>
     prefix p rest \<and> stored node p \<noteq> None \<and>
     (\<forall>q. strict_prefix q p \<longrightarrow> stored node q = None)"

section \<open>Loading the filter list\<close>

text \<open>
  The two categorizers of \<^verbatim>\<open>loadFilterList\<close> are case-insensitive regular expressions
  that are alternations of literal words, so \<^verbatim>\<open>regex.test(filter)\<close> asks whether one
  of the words occurs in the filter, letters compared without case. The words are in
  lower case, and only the letters \<open>A\<close> to \<open>Z\<close> match a lower-case ASCII letter.
\<close>

definition ascii_lower :: "char \<Rightarrow> char" where
  "ascii_lower c =
     (let n = (of_char c :: nat) in if 65 \<le> n \<and> n \<le> 90 then char_of (n + 32) else c)"

definition regex_test :: "string list \<Rightarrow> string \<Rightarrow> bool" where
  "regex_test words s = list_ex (includes_str (map ascii_lower s)) words"

definition tracker_words :: "string list" where
  "tracker_words = [
    ''track'', ''analytics'', ''analytic'', ''pixel'', ''beacon'', ''telemetry'',
     ''collect'', ''metric'', ''stats'', ''statistic'', ''counter'', ''logger'',
     ''logging'', ''monitor'', ''telemetrics'', ''insight'', ''heatmap'', ''mouseflow'',
     ''clicktale'', ''usabilla'', ''hotjar'', ''mixpanel'', ''segment'', ''amplitude'',
     ''heap'', ''fullstory'', ''smartlook'', ''inspectlet'', ''quantcast'', ''comscore'',
     ''chartbeat'', ''parsely'', ''snowplow'', ''matomo'', ''piwik'', ''kissmetrics'',
     ''clicky'', ''woopra'', ''crazy-egg'', ''optimizely'', ''vwo'', ''google-analytics'',
     ''googletagmanager'', ''gtag'', ''doubleclick'', ''criteo-analytics'',
     ''facebook-pixel'', ''fbevents'', ''pinterest-tag'', ''twitter-pixel'',
     ''linkedin-insight'', ''reddit-pixel'', ''tiktok-pixel'', ''snapchat-pixel'',
     ''omniture'', ''adobe-analytics'', ''sitestat'', ''webtrekk'', ''atinternet'',
     ''eulerian'', ''xiti'', ''gemius'', ''navegg'', ''retailrocket'', ''conviva'',
     ''youbora'', ''nice264'', ''streamsense'', ''moat'', ''ias'', ''doubleverify'',
     ''integral-ad-science'', ''scorecard'', ''newrelic'', ''sentry'', ''bugsnag'',
     ''rollbar'', ''airbrake'', ''raygun'', ''trackjs'', ''errorception'', ''honeybadger'']"

definition ad_words :: "string list" where
  "ad_words = [
    ''advert'', ''banner'', ''popup'', ''sponsor'', ''promo'', ''promotion'',
     ''affiliate'', ''monetize'', ''adsense'', ''adserver'', ''adservice'', ''adslot'',
     ''adunit'', ''admob'', ''inmobi'', ''mopub'', ''applovin'', ''chartboost'',
     ''vungle'', ''unity-ads'', ''ironsource'', ''adcolony'', ''tapjoy'', ''fyber'',
     ''smaato'', ''pubmatic'', ''rubicon'', ''openx'', ''appnexus'', ''indexexchange'',
     ''sovrn'', ''triplelift'', ''teads'', ''outbrain'', ''taboola'', ''revcontent'',
     ''mgid'', ''plista'', ''ligatus'', ''adblade'', ''content.ad'', ''zone'',
     ''doubleclick'', ''googlesyndication'', ''googleadservices'', ''amazon-adsystem'',
     ''casalemedia'', ''advertising.com'', ''adnxs'', ''rubiconproject'', ''contextweb'',
     ''advertising'', ''bidswitch'', ''spotx'', ''smartadserver'', ''improvedigital'',
     ''yieldmo'', ''adform'', ''undertone'', ''conversant'', ''sharethrough'', ''nativo'',
     ''mediamath'', ''turn.com'', ''criteo'', ''adroll'', ''retargeter'', ''adtech'',
     ''exponential'', ''tribal'', ''33across'', ''sonobi'', ''districtm'', ''gumgum'',
     ''kargo'', ''lockerdome'', ''nanointeractive'', ''beachfront'', ''trustx'',
     ''rhythmone'', ''emxdigital'']"

definition categorizers :: "(string list \<times> category) list" where
  "categorizers = [(tracker_words, Tracker), (ad_words, Ad)]"

text \<open>\<^verbatim>\<open>let category = 'Ad'; for (const cat of categorizers) if (cat.regex.test(filter)) { category = cat.category; break; }\<close>\<close>

definition categorize :: "string \<Rightarrow> category" where
  "categorize flt =
     (case find (\<lambda>cat. regex_test (fst cat) flt) categorizers of
        Some cat \<Rightarrow> snd cat
      | None \<Rightarrow> Ad)"

text \<open>The skip checks of the loader, on the line as it was split off.\<close>

definition skipped :: "string \<Rightarrow> bool" where
  "skipped line \<longleftrightarrow>
     trim line = [] \<or> startsWith line ''!'' \<or> startsWith line ''['' \<or>
     includes_str line ''##'' \<or> includes_str line ''#@#'' \<or> startsWith line ''@@''"

text \<open>\<^verbatim>\<open>let filter = line.trim(); if (filter.includes('$')) filter = filter.split('$')[0];\<close>\<close>

definition filter_of :: "string \<Rightarrow> string" where
  "filter_of line =
     (let flt = trim line
      in if includes_str flt ''$'' then takeWhile (\<lambda>c. c \<noteq> CHR ''$'') flt else flt)"

text \<open>The body of the loop over the lines; \<open>load_lines\<close> is the loop.\<close>

definition load_line :: "FilterTrie \<Rightarrow> string \<Rightarrow> FilterTrie" where
  "load_line ft line =
     (if skipped line then ft
      else let flt = filter_of line
           in if flt = [] then ft
              else FilterTrie_insert ft flt (categorize flt))"

definition load_lines :: "FilterTrie \<Rightarrow> string list \<Rightarrow> FilterTrie" where
  "load_lines ft lines = foldl load_line ft lines"

section \<open>LRUCache\<close>

text \<open>
  A JavaScript \<^verbatim>\<open>Map\<close> iterates its keys in insertion order, and the cache relies on
  it: the entries are a list of pairs, oldest first, with distinct keys.
  \<^verbatim>\<open>Map.set\<close> on a key that is present replaces the value where the entry is; on a
  new key it appends. \<^verbatim>\<open>Map.delete\<close> removes the entry.
\<close>

type_synonym ('k, 'v) js_map = "('k \<times> 'v) list"

definition Map_has :: "('k, 'v) js_map \<Rightarrow> 'k \<Rightarrow> bool" where
  "Map_has m k = (map_of m k \<noteq> None)"

definition Map_get :: "('k, 'v) js_map \<Rightarrow> 'k \<Rightarrow> 'v option" where
  "Map_get m k = map_of m k"

definition Map_delete :: "('k, 'v) js_map \<Rightarrow> 'k \<Rightarrow> ('k, 'v) js_map" where
  "Map_delete m k = filter (\<lambda>e. fst e \<noteq> k) m"

fun Map_set :: "('k, 'v) js_map \<Rightarrow> 'k \<Rightarrow> 'v \<Rightarrow> ('k, 'v) js_map" where
  "Map_set [] k v = [(k, v)]"
| "Map_set (e # m) k v = (if fst e = k then (k, v) # m else e # Map_set m k v)"

record ('k, 'v) LRUCache =
  cache :: "('k, 'v) js_map"
  maxSize :: nat

definition new_LRUCache :: "nat \<Rightarrow> ('k, 'v) LRUCache" where
  "new_LRUCache n = \<lparr>cache = [], maxSize = n\<rparr>"

text \<open>
  \<^verbatim>\<open>get\<close> returns \<^verbatim>\<open>undefined\<close>, here \<open>None\<close>, for a key that is absent; for a key that
  is present it deletes the entry and sets it again, which moves it to the end.
\<close>

definition LRUCache_get :: "('k, 'v) LRUCache \<Rightarrow> 'k \<Rightarrow> 'v option \<times> ('k, 'v) LRUCache" where
  "LRUCache_get c key =
     (if \<not> Map_has (cache c) key then (None, c)
      else (case Map_get (cache c) key of
              None \<Rightarrow> (None, c)
            | Some v \<Rightarrow> (Some v, c\<lparr>cache := Map_set (Map_delete (cache c) key) key v\<rparr>)))"

text \<open>
  \<^verbatim>\<open>set\<close>: when \<^verbatim>\<open>this.cache.size >= this.maxSize\<close> the first key of the map is
  deleted (on an empty map \<^verbatim>\<open>keys().next().value\<close> is \<^verbatim>\<open>undefined\<close> and nothing is
  deleted), then the entry is set.
\<close>

definition LRUCache_set :: "('k, 'v) LRUCache \<Rightarrow> 'k \<Rightarrow> 'v \<Rightarrow> ('k, 'v) LRUCache" where
  "LRUCache_set c key v =
     (let m = (if length (cache c) \<ge> maxSize c
               then (case cache c of [] \<Rightarrow> [] | e # _ \<Rightarrow> Map_delete (cache c) (fst e))
               else cache c)
      in c\<lparr>cache := Map_set m key v\<rparr>)"

definition LRUCache_has :: "('k, 'v) LRUCache \<Rightarrow> 'k \<Rightarrow> bool" where
  "LRUCache_has c key = Map_has (cache c) key"

text \<open>A call of one of the three methods, and the cache it leaves.\<close>

datatype ('k, 'v) cache_op = Get 'k | Set 'k 'v | Has 'k

fun cache_step :: "('k, 'v) LRUCache \<Rightarrow> ('k, 'v) cache_op \<Rightarrow> ('k, 'v) LRUCache" where
  "cache_step c (Get k) = snd (LRUCache_get c k)"
| "cache_step c (Set k v) = LRUCache_set c k v"
| "cache_step c (Has k) = c"

definition cache_run :: "('k, 'v) LRUCache \<Rightarrow> ('k, 'v) cache_op list \<Rightarrow> ('k, 'v) LRUCache" where
  "cache_run c ops = foldl cache_step c ops"

text \<open>
  The use history of the cache. \<^verbatim>\<open>get\<close> and \<^verbatim>\<open>set\<close> use their key, \<^verbatim>\<open>has\<close> uses none.
  \<open>last_use xs k\<close> is the position, counted from 1, of the last call in \<open>xs\<close> that
  uses \<open>k\<close>, and 0 when no call does. \<open>sets_absent_only c xs\<close> says that, run from \<open>c\<close>,
  every \<^verbatim>\<open>set\<close> in \<open>xs\<close> is for a key that is absent at that moment, which is how
  \<^verbatim>\<open>checkUrlBlocked\<close> calls it (only after \<^verbatim>\<open>has\<close> returned false).
\<close>

fun used_key :: "('k, 'v) cache_op \<Rightarrow> 'k option" where
  "used_key (Get k) = Some k"
| "used_key (Set k v) = Some k"
| "used_key (Has k) = None"

fun last_use :: "('k, 'v) cache_op list \<Rightarrow> 'k \<Rightarrow> nat" where
  "last_use [] k = 0"
| "last_use (x # xs) k =
     (if 0 < last_use xs k then Suc (last_use xs k)
      else if used_key x = Some k then 1 else 0)"

fun sets_absent_only :: "('k, 'v) LRUCache \<Rightarrow> ('k, 'v) cache_op list \<Rightarrow> bool" where
  "sets_absent_only c [] = True"
| "sets_absent_only c (x # xs) =
     ((case x of Set k v \<Rightarrow> \<not> LRUCache_has c k | _ \<Rightarrow> True) \<and>
      sets_absent_only (cache_step c x) xs)"

section \<open>Sessions\<close>

text \<open>
  An entry of the list of a tab, \<^verbatim>\<open>{ url: shortenedUrl, fullUrl: url, timestamp, category }\<close>,
  and the record of a tab in \<^verbatim>\<open>blockedUrlsByTab\<close>.
\<close>

record blocked_entry =
  url :: string
  fullUrl :: string
  timestamp :: nat
  entry_category :: category

record tab_data =
  domain :: string
  urls :: "blocked_entry list"
  totalCount :: nat
  adCount :: nat
  trackerCount :: nat

definition new_tab_data :: "string \<Rightarrow> tab_data" where
  "new_tab_data d = \<lparr>domain = d, urls = [], totalCount = 0, adCount = 0, trackerCount = 0\<rparr>"

definition MAX_STORED_PER_TAB :: nat where
  "MAX_STORED_PER_TAB = 300"

text \<open>
  What the request listener does to \<^verbatim>\<open>blockedUrlsByTab\<close> for a request that matched:
  the record of the tab is created when it is absent (\<open>record_blocked\<close>); then the
  entry is put in front of the list when the list is shorter than the cap, and the
  counts are incremented (\<open>add_blocked\<close>). The cap is the constant
  \<^verbatim>\<open>MAX_STORED_PER_TAB\<close> in the code and a parameter here.
\<close>

definition add_blocked :: "nat \<Rightarrow> tab_data \<Rightarrow> blocked_entry \<Rightarrow> tab_data" where
  "add_blocked max_stored tabData entry =
     (let tabData1 = (if length (urls tabData) < max_stored
                      then tabData\<lparr>urls := entry # urls tabData\<rparr> else tabData);
          tabData2 = tabData1\<lparr>totalCount := totalCount tabData1 + 1\<rparr>
      in if entry_category entry = Tracker
         then tabData2\<lparr>trackerCount := trackerCount tabData2 + 1\<rparr>
         else tabData2\<lparr>adCount := adCount tabData2 + 1\<rparr>)"

definition record_blocked ::
  "nat \<Rightarrow> (int \<rightharpoonup> tab_data) \<Rightarrow> int \<Rightarrow> blocked_entry \<Rightarrow> (int \<rightharpoonup> tab_data)" where
  "record_blocked max_stored tabs tabId entry =
     (let tabData = (case tabs tabId of None \<Rightarrow> new_tab_data [] | Some td \<Rightarrow> td)
      in tabs(tabId \<mapsto> add_blocked max_stored tabData entry))"

text \<open>A run of matched requests, each with the tab it belongs to.\<close>

definition record_all ::
  "nat \<Rightarrow> (int \<rightharpoonup> tab_data) \<Rightarrow> (int \<times> blocked_entry) list \<Rightarrow> (int \<rightharpoonup> tab_data)" where
  "record_all max_stored tabs reqs =
     foldl (\<lambda>t (tabId, entry). record_blocked max_stored t tabId entry) tabs reqs"

section \<open>Storage, timers and the tab handlers\<close>

text \<open>
  The keys of \<^verbatim>\<open>chrome.storage.local\<close> that hold the persisted sessions and the global
  counters; a key that was never written is \<open>None\<close>. \<^verbatim>\<open>totalTimeSaved\<close> is a floating
  point number, of a type \<open>'f\<close> that is left open.
\<close>

record 'f local_storage =
  stored_blockedUrlsByTab :: "int \<rightharpoonup> tab_data"
  totalBlockedAllTime :: "nat option"
  totalTimeSaved :: "'f option"
  totalDataSaved :: "nat option"
  userXP :: "nat option"
  userCoins :: "nat option"

text \<open>
  The callbacks given to \<^verbatim>\<open>setTimeout\<close>: the flush of V1.8, the flush of the version
  that keeps a set of tabs to write, and the badge repaint of a tab.
\<close>

datatype timeout_callback = SaveBlockedUrls | FlushUpdates | BadgeUpdate int

text \<open>
  The state of the background script that the tab handlers and the batcher use.
  \<open>timeouts\<close> is the table of pending timeouts of the runtime, each with its id, the
  time it is due and its callback; \<^verbatim>\<open>setTimeout\<close> returns a fresh positive id, which is
  truthy, so \<^verbatim>\<open>if (storageUpdateTimer)\<close> asks whether the variable holds an id.
  \<open>pendingStorageUpdates\<close> exists only in the version with
  \<^verbatim>\<open>scheduleBatchedStorageUpdate\<close>.
\<close>

record 'f engine =
  blockedUrlsByTab :: "int \<rightharpoonup> tab_data"
  pendingStorageUpdates :: "int set"
  storageUpdateTimer :: "nat option"
  badgeUpdateTimers :: "int \<rightharpoonup> nat"
  timeouts :: "(nat \<times> nat \<times> timeout_callback) list"
  next_timeout :: nat
  badgeText :: "int \<rightharpoonup> string"
  storage :: "'f local_storage"

definition STORAGE_BATCH_DELAY :: nat where
  "STORAGE_BATCH_DELAY = 1000"

definition BADGE_UPDATE_DELAY :: nat where
  "BADGE_UPDATE_DELAY = 500"

definition setTimeout ::
  "timeout_callback \<Rightarrow> nat \<Rightarrow> nat \<Rightarrow> 'f engine \<Rightarrow> nat \<times> 'f engine" where
  "setTimeout cb delay now e =
     (next_timeout e,
      e\<lparr>timeouts := timeouts e @ [(next_timeout e, now + delay, cb)],
        next_timeout := next_timeout e + 1\<rparr>)"

definition clearTimeout :: "nat \<Rightarrow> 'f engine \<Rightarrow> 'f engine" where
  "clearTimeout t e = e\<lparr>timeouts := filter (\<lambda>x. fst x \<noteq> t) (timeouts e)\<rparr>"

subsection \<open>V1.8: \<^verbatim>\<open>scheduleStorageUpdate\<close>\<close>

definition saveBlockedUrlsToStorage :: "'f engine \<Rightarrow> 'f engine" where
  "saveBlockedUrlsToStorage e =
     e\<lparr>storage := (storage e)\<lparr>stored_blockedUrlsByTab := blockedUrlsByTab e\<rparr>\<rparr>"

definition scheduleStorageUpdate :: "nat \<Rightarrow> 'f engine \<Rightarrow> 'f engine" where
  "scheduleStorageUpdate now e =
     (let e1 = (case storageUpdateTimer e of Some t \<Rightarrow> clearTimeout t e | None \<Rightarrow> e);
          (t, e2) = setTimeout SaveBlockedUrls STORAGE_BATCH_DELAY now e1
      in e2\<lparr>storageUpdateTimer := Some t\<rparr>)"

definition updateBadgeForTab :: "nat \<Rightarrow> int \<Rightarrow> 'f engine \<Rightarrow> 'f engine" where
  "updateBadgeForTab now tabId e =
     (let e1 = (case badgeUpdateTimers e tabId of Some t \<Rightarrow> clearTimeout t e | None \<Rightarrow> e);
          (t, e2) = setTimeout (BadgeUpdate tabId) BADGE_UPDATE_DELAY now e1
      in e2\<lparr>badgeUpdateTimers := (badgeUpdateTimers e2)(tabId \<mapsto> t)\<rparr>)"

subsection \<open>The version with a set of tabs to write: \<^verbatim>\<open>scheduleBatchedStorageUpdate\<close>\<close>

definition flushStorageUpdates :: "'f engine \<Rightarrow> 'f engine" where
  "flushStorageUpdates e =
     (if pendingStorageUpdates e = {} then e
      else e\<lparr>storage := (storage e)\<lparr>stored_blockedUrlsByTab :=
                 (\<lambda>tabId. if tabId \<in> pendingStorageUpdates e
                           then blockedUrlsByTab e tabId else None)\<rparr>,
             pendingStorageUpdates := {}\<rparr>)"

definition scheduleBatchedStorageUpdate :: "nat \<Rightarrow> int \<Rightarrow> 'f engine \<Rightarrow> 'f engine" where
  "scheduleBatchedStorageUpdate now tabId e =
     (let e1 = e\<lparr>pendingStorageUpdates := insert tabId (pendingStorageUpdates e)\<rparr>
      in case storageUpdateTimer e1 of
           Some t \<Rightarrow> e1
         | None \<Rightarrow>
             (let (t, e2) = setTimeout FlushUpdates STORAGE_BATCH_DELAY now e1
              in e2\<lparr>storageUpdateTimer := Some t\<rparr>))"

subsection \<open>A timeout fires\<close>

text \<open>
  The runtime takes the timeout out of its table and runs the callback. The two flush
  callbacks write and then set \<^verbatim>\<open>storageUpdateTimer = null\<close>. The badge callback
  deletes the timer of its tab; the repaint it starts reads two settings and calls
  \<^verbatim>\<open>chrome.action\<close> only, and is not part of this state.
\<close>

definition run_timeout :: "nat \<Rightarrow> 'f engine \<Rightarrow> 'f engine" where
  "run_timeout t e =
     (case find (\<lambda>x. fst x = t) (timeouts e) of
        None \<Rightarrow> e
      | Some (_, _, cb) \<Rightarrow>
          (let e1 = clearTimeout t e
           in case cb of
                SaveBlockedUrls \<Rightarrow> (saveBlockedUrlsToStorage e1)\<lparr>storageUpdateTimer := None\<rparr>
              | FlushUpdates \<Rightarrow> (flushStorageUpdates e1)\<lparr>storageUpdateTimer := None\<rparr>
              | BadgeUpdate tabId \<Rightarrow>
                  e1\<lparr>badgeUpdateTimers := (badgeUpdateTimers e1)(tabId := None)\<rparr>))"

text \<open>The pending timeouts that flush, and the events of the batcher.\<close>

definition is_flush :: "timeout_callback \<Rightarrow> bool" where
  "is_flush cb = (case cb of BadgeUpdate _ \<Rightarrow> False | _ \<Rightarrow> True)"

definition flush_timeouts :: "'f engine \<Rightarrow> (nat \<times> nat \<times> timeout_callback) list" where
  "flush_timeouts e = filter (\<lambda>x. is_flush (snd (snd x))) (timeouts e)"

datatype batcher_event = Mark nat int | Badge nat int | Fire nat

fun batched_step :: "'f engine \<Rightarrow> batcher_event \<Rightarrow> 'f engine" where
  "batched_step e (Mark now tabId) = scheduleBatchedStorageUpdate now tabId e"
| "batched_step e (Badge now tabId) = updateBadgeForTab now tabId e"
| "batched_step e (Fire t) = run_timeout t e"

fun v18_step :: "'f engine \<Rightarrow> batcher_event \<Rightarrow> 'f engine" where
  "v18_step e (Mark now tabId) = scheduleStorageUpdate now e"
| "v18_step e (Badge now tabId) = updateBadgeForTab now tabId e"
| "v18_step e (Fire t) = run_timeout t e"

text \<open>
  The timeout ids are fresh: every id in use is below \<open>next_timeout\<close>, and no two
  pending timeouts share one. The badge timers are not the flush timer, and
  \<open>storageUpdateTimer\<close> holds the id of the one pending flush, when there is one.
\<close>

definition timers_ok :: "'f engine \<Rightarrow> bool" where
  "timers_ok e \<longleftrightarrow>
     (\<forall>x\<in>set (timeouts e). fst x < next_timeout e) \<and>
     distinct (map fst (timeouts e)) \<and>
     (\<forall>tabId t. badgeUpdateTimers e tabId = Some t \<longrightarrow>
        t < next_timeout e \<and> (\<forall>x\<in>set (flush_timeouts e). fst x \<noteq> t)) \<and>
     (case storageUpdateTimer e of
        None \<Rightarrow> flush_timeouts e = []
      | Some t \<Rightarrow> \<exists>due cb. flush_timeouts e = [(t, due, cb)])"

definition empty_storage :: "'f local_storage" where
  "empty_storage =
     \<lparr>stored_blockedUrlsByTab = Map.empty, totalBlockedAllTime = None, totalTimeSaved = None,
      totalDataSaved = None, userXP = None, userCoins = None\<rparr>"

definition new_engine :: "'f local_storage \<Rightarrow> 'f engine" where
  "new_engine st =
     \<lparr>blockedUrlsByTab = Map.empty, pendingStorageUpdates = {}, storageUpdateTimer = None,
      badgeUpdateTimers = Map.empty, timeouts = [], next_timeout = 1,
      badgeText = Map.empty, storage = st\<rparr>"

subsection \<open>\<^verbatim>\<open>chrome.tabs.onUpdated\<close>\<close>

text \<open>
  \<^verbatim>\<open>new URL(changeInfo.url).hostname\<close> is the URL parser of the browser, a parameter
  here: \<open>hostname_of u\<close> is \<open>None\<close> when the constructor throws. \<open>changeInfo_url\<close> is
  \<open>None\<close> when the change has no \<^verbatim>\<open>url\<close>; the empty string is falsy too.
\<close>

definition onUpdated ::
  "(string \<Rightarrow> string option) \<Rightarrow> nat \<Rightarrow> int \<Rightarrow> string option \<Rightarrow> 'f engine \<Rightarrow> 'f engine" where
  "onUpdated hostname_of now tabId changeInfo_url e =
     (case changeInfo_url of
        None \<Rightarrow> e
      | Some u \<Rightarrow>
          if u = [] then e
          else (case hostname_of u of
                  None \<Rightarrow> e\<lparr>badgeText := (badgeText e)(tabId \<mapsto> [])\<rparr>
                | Some newDomain \<Rightarrow>
                    (case blockedUrlsByTab e tabId of
                       Some tabData \<Rightarrow>
                         if domain tabData \<noteq> newDomain
                         then updateBadgeForTab now tabId (scheduleStorageUpdate now
                                (e\<lparr>blockedUrlsByTab :=
                                     (blockedUrlsByTab e)(tabId \<mapsto> new_tab_data newDomain)\<rparr>))
                         else e
                     | None \<Rightarrow>
                         e\<lparr>blockedUrlsByTab :=
                             (blockedUrlsByTab e)(tabId \<mapsto> new_tab_data newDomain)\<rparr>)))"

text \<open>The global counters: all-time total, time saved, data saved, XP and coins.\<close>

definition global_counters ::
  "'f local_storage \<Rightarrow> nat option \<times> 'f option \<times> nat option \<times> nat option \<times> nat option" where
  "global_counters st =
     (totalBlockedAllTime st, totalTimeSaved st, totalDataSaved st, userXP st, userCoins st)"

section \<open>The update of the global counters\<close>

text \<open>
  On a match the request listener calls \<^verbatim>\<open>chrome.storage.local.get\<close> for the three
  totals, with a callback that writes each total plus its increment with
  \<^verbatim>\<open>chrome.storage.local.set\<close>. The read is asynchronous: it is served, and the
  callback runs in a later task with the result that was read. \<open>add_time\<close> stands for
  the floating point sum \<^verbatim>\<open>(result.totalTimeSaved || 0) + AVG_TIME_PER_AD\<close>.
\<close>

definition AVG_DATA_PER_AD :: nat where
  "AVG_DATA_PER_AD = 50"

definition or_zero :: "nat option \<Rightarrow> nat" where
  "or_zero x = (case x of None \<Rightarrow> 0 | Some n \<Rightarrow> n)"

definition totals_callback ::
  "('f option \<Rightarrow> 'f) \<Rightarrow> 'f local_storage \<Rightarrow> 'f local_storage \<Rightarrow> 'f local_storage" where
  "totals_callback add_time result st =
     (let newTotal = or_zero (totalBlockedAllTime result) + 1;
          newTimeSaved = add_time (totalTimeSaved result);
          newDataSaved = or_zero (totalDataSaved result) + AVG_DATA_PER_AD
      in st\<lparr>totalBlockedAllTime := Some newTotal,
            totalTimeSaved := Some newTimeSaved,
            totalDataSaved := Some newDataSaved\<rparr>)"

text \<open>
  The storage together with the reads that were served and whose callbacks have not run
  yet, each under the number of its request. \<open>StorageGet i\<close>: the read of request \<open>i\<close>
  is served. \<open>Callback i\<close>: its callback runs; there is no such step when no result is
  waiting for \<open>i\<close>.
\<close>

record 'f counter_state =
  cs_storage :: "'f local_storage"
  waiting :: "nat \<rightharpoonup> 'f local_storage"

datatype counter_action = StorageGet nat | Callback nat

fun counter_step ::
  "('f option \<Rightarrow> 'f) \<Rightarrow> 'f counter_state \<Rightarrow> counter_action \<Rightarrow> 'f counter_state option" where
  "counter_step add_time s (StorageGet i) =
     Some (s\<lparr>waiting := (waiting s)(i \<mapsto> cs_storage s)\<rparr>)"
| "counter_step add_time s (Callback i) =
     (case waiting s i of
        None \<Rightarrow> None
      | Some result \<Rightarrow>
          Some \<lparr>cs_storage = totals_callback add_time result (cs_storage s),
                waiting = (waiting s)(i := None)\<rparr>)"

fun counter_run ::
  "('f option \<Rightarrow> 'f) \<Rightarrow> 'f counter_state \<Rightarrow> counter_action list \<Rightarrow> 'f counter_state option" where
  "counter_run add_time s [] = Some s"
| "counter_run add_time s (a # as) =
     (case counter_step add_time s a of
        None \<Rightarrow> None
      | Some s' \<Rightarrow> counter_run add_time s' as)"

section \<open>Properties of the strings\<close>

lemma of_char_toLowerCase_char:
  "(of_char (toLowerCase_char c) :: nat) =
     (let n = of_char c
      in if (65 \<le> n \<and> n \<le> 90) \<or> (192 \<le> n \<and> n \<le> 214) \<or> (216 \<le> n \<and> n \<le> 222)
         then n + 32 else n)"
  by (auto simp add: toLowerCase_char_def Let_def)

lemma toLowerCase_char_idem: "toLowerCase_char (toLowerCase_char c) = toLowerCase_char c"
proof -
  have "(of_char (toLowerCase_char (toLowerCase_char c)) :: nat) = of_char (toLowerCase_char c)"
    by (auto simp add: of_char_toLowerCase_char Let_def)
  then show ?thesis by (simp only: of_char_eq_iff)
qed

lemma toLowerCase_idem: "toLowerCase (toLowerCase s) = toLowerCase s"
  by (simp add: toLowerCase_def toLowerCase_char_idem)

lemma toLowerCase_char_eq_bar: "toLowerCase_char c = CHR ''|'' \<longleftrightarrow> c = CHR ''|''"
proof -
  have "toLowerCase_char c = CHR ''|'' \<longleftrightarrow> (of_char (toLowerCase_char c) :: nat) = of_char (CHR ''|'')"
    by (simp only: of_char_eq_iff)
  also have "\<dots> \<longleftrightarrow> (of_char c :: nat) = of_char (CHR ''|'')"
    by (auto simp add: of_char_toLowerCase_char Let_def)
  also have "\<dots> \<longleftrightarrow> c = CHR ''|''" by (simp only: of_char_eq_iff)
  finally show ?thesis .
qed

lemma toLowerCase_char_eq_star: "toLowerCase_char c = CHR ''*'' \<longleftrightarrow> c = CHR ''*''"
proof -
  have "toLowerCase_char c = CHR ''*'' \<longleftrightarrow> (of_char (toLowerCase_char c) :: nat) = of_char (CHR ''*'')"
    by (simp only: of_char_eq_iff)
  also have "\<dots> \<longleftrightarrow> (of_char c :: nat) = of_char (CHR ''*'')"
    by (auto simp add: of_char_toLowerCase_char Let_def)
  also have "\<dots> \<longleftrightarrow> c = CHR ''*''" by (simp only: of_char_eq_iff)
  finally show ?thesis .
qed

lemma toLowerCase_char_eq_caret: "toLowerCase_char c = CHR ''^'' \<longleftrightarrow> c = CHR ''^''"
proof -
  have "toLowerCase_char c = CHR ''^'' \<longleftrightarrow> (of_char (toLowerCase_char c) :: nat) = of_char (CHR ''^'')"
    by (simp only: of_char_eq_iff)
  also have "\<dots> \<longleftrightarrow> (of_char c :: nat) = of_char (CHR ''^'')"
    by (auto simp add: of_char_toLowerCase_char Let_def)
  also have "\<dots> \<longleftrightarrow> c = CHR ''^''" by (simp only: of_char_eq_iff)
  finally show ?thesis .
qed

section \<open>Pattern cleaning\<close>

lemma cleanPattern_no_star: "CHR ''*'' \<notin> set (cleanPattern p)"
proof
  assume "CHR ''*'' \<in> set (cleanPattern p)"
  then obtain x where "toLowerCase_char x = CHR ''*''" and
    "x \<in> set (remove_all (CHR ''^'') (remove_all (CHR ''*'')
       (strip_trailing_bar (strip_leading_bar (strip_leading_bars p)))))"
    by (auto simp add: cleanPattern_def toLowerCase_def)
  then show False by (simp add: toLowerCase_char_eq_star remove_all_def)
qed

lemma cleanPattern_no_caret: "CHR ''^'' \<notin> set (cleanPattern p)"
proof
  assume "CHR ''^'' \<in> set (cleanPattern p)"
  then obtain x where "toLowerCase_char x = CHR ''^''" and
    "x \<in> set (remove_all (CHR ''^'') (remove_all (CHR ''*'')
       (strip_trailing_bar (strip_leading_bar (strip_leading_bars p)))))"
    by (auto simp add: cleanPattern_def toLowerCase_def)
  then show False by (simp add: toLowerCase_char_eq_caret remove_all_def)
qed

lemma cleanPattern_lower: "toLowerCase (cleanPattern p) = cleanPattern p"
  by (simp add: cleanPattern_def toLowerCase_idem)

lemma strip_front_cases:
  "(strip_leading_bar (strip_leading_bars s) = s \<and> \<not> prefix ''|'' s) \<or>
   (length (strip_leading_bar (strip_leading_bars s)) < length s \<and> prefix ''|'' s)"
proof (cases s)
  case Nil
  then show ?thesis by simp
next
  case (Cons a r)
  show ?thesis
  proof (cases r)
    case Nil
    with Cons show ?thesis by simp
  next
    case (Cons b r')
    have "length (strip_leading_bar r') \<le> length r'" by (cases r') simp_all
    with Cons \<open>s = a # r\<close> show ?thesis by auto
  qed
qed

lemma length_strip_trailing_bar: "length (strip_trailing_bar s) \<le> length s"
  by (simp add: strip_trailing_bar_def)

lemma length_cleanPattern_le:
  "length (cleanPattern s) \<le> length (strip_trailing_bar (strip_leading_bar (strip_leading_bars s)))"
  unfolding cleanPattern_def toLowerCase_def remove_all_def length_map
  by (rule order_trans[OF length_filter_le length_filter_le])

lemma cleanPattern_shorter:
  assumes "prefix ''|'' s \<or> suffix ''|'' s"
  shows "length (cleanPattern s) < length s"
proof -
  let ?t = "strip_leading_bar (strip_leading_bars s)"
  have le: "length (cleanPattern s) \<le> length (strip_trailing_bar ?t)"
    by (rule length_cleanPattern_le)
  from strip_front_cases[of s] show ?thesis
  proof
    assume A: "?t = s \<and> \<not> prefix ''|'' s"
    with assms have "suffix ''|'' s" by simp
    then have "s \<noteq> []" "last s = CHR ''|''" by (auto simp add: suffix_def)
    then have "length (strip_trailing_bar s) < length s"
      by (simp add: strip_trailing_bar_def)
    with le A show ?thesis by simp
  next
    assume "length ?t < length s \<and> prefix ''|'' s"
    with le length_strip_trailing_bar[of ?t] show ?thesis by simp
  qed
qed

lemma cleanPattern_fixed:
  assumes "\<not> prefix ''|'' s" "\<not> suffix ''|'' s"
    and "CHR ''*'' \<notin> set s" "CHR ''^'' \<notin> set s" "toLowerCase s = s"
  shows "cleanPattern s = s"
proof -
  from strip_front_cases[of s] assms(1)
  have front: "strip_leading_bar (strip_leading_bars s) = s" by auto
  have "\<not> (s \<noteq> [] \<and> last s = CHR ''|'')"
  proof
    assume "s \<noteq> [] \<and> last s = CHR ''|''"
    then have "s = butlast s @ ''|''" by (metis append_butlast_last_id)
    then have "suffix ''|'' s" by (metis suffixI)
    with assms(2) show False by simp
  qed
  then have rear: "strip_trailing_bar s = s" by (auto simp add: strip_trailing_bar_def)
  have "remove_all (CHR ''*'') s = s" "remove_all (CHR ''^'') s = s"
    using assms(3,4) by (auto simp add: remove_all_def filter_id_conv)
  with front rear assms(5) show ?thesis by (simp add: cleanPattern_def)
qed

text \<open>
  C6 (as the claim states it, refuted). The leading anchors are removed once: the
  pattern \<^verbatim>\<open>||||a\<close> cleans to \<^verbatim>\<open>|a\<close>, which cleans to \<^verbatim>\<open>a\<close>.
\<close>

theorem cleanPattern_idempotent_counterexample:
  "cleanPattern ''||||a'' = ''|a'' \<and> cleanPattern (cleanPattern ''||||a'') = ''a'' \<and>
   cleanPattern (cleanPattern ''||||a'') \<noteq> cleanPattern ''||||a''"
  by code_simp

text \<open>
  C6 (amended). Cleaning is a function of the pattern. Cleaning a cleaned pattern again
  changes nothing exactly when the cleaned pattern neither starts nor ends with
  \<^verbatim>\<open>|\<close>.
\<close>

theorem cleanPattern_idempotent_iff:
  "cleanPattern (cleanPattern p) = cleanPattern p \<longleftrightarrow>
     \<not> startsWith (cleanPattern p) ''|'' \<and> \<not> endsWith (cleanPattern p) ''|''"
proof
  assume eq: "cleanPattern (cleanPattern p) = cleanPattern p"
  show "\<not> startsWith (cleanPattern p) ''|'' \<and> \<not> endsWith (cleanPattern p) ''|''"
  proof (rule ccontr)
    assume "\<not> (\<not> startsWith (cleanPattern p) ''|'' \<and> \<not> endsWith (cleanPattern p) ''|'')"
    then have "prefix ''|'' (cleanPattern p) \<or> suffix ''|'' (cleanPattern p)"
      by (simp add: startsWith_def endsWith_def)
    from cleanPattern_shorter[OF this] eq show False by simp
  qed
next
  assume "\<not> startsWith (cleanPattern p) ''|'' \<and> \<not> endsWith (cleanPattern p) ''|''"
  then show "cleanPattern (cleanPattern p) = cleanPattern p"
    by (intro cleanPattern_fixed cleanPattern_no_star cleanPattern_no_caret cleanPattern_lower)
       (simp_all add: startsWith_def endsWith_def)
qed

theorem cleanPattern_idempotent_iff_witness:
  "cleanPattern (cleanPattern ''||Ads.Example.com^|'') = cleanPattern ''||Ads.Example.com^|'' \<and>
   cleanPattern ''||Ads.Example.com^|'' = ''ads.example.com''"
proof -
  have "\<not> startsWith (cleanPattern ''||Ads.Example.com^|'') ''|'' \<and>
        \<not> endsWith (cleanPattern ''||Ads.Example.com^|'') ''|''"
    by code_simp
  with cleanPattern_idempotent_iff[of "''||Ads.Example.com^|''"]
  have "cleanPattern (cleanPattern ''||Ads.Example.com^|'') = cleanPattern ''||Ads.Example.com^|''"
    by (rule iffD2)
  moreover have "cleanPattern ''||Ads.Example.com^|'' = ''ads.example.com''" by code_simp
  ultimately show ?thesis by (rule conjI)
qed

section \<open>The trie and its stored patterns\<close>

lemma walk_new: "walk new_TrieNode s = (if s = [] then Some new_TrieNode else None)"
  by (cases s) (simp_all add: new_TrieNode_def)

lemma stored_new: "stored new_TrieNode s = None"
  by (simp add: stored_def walk_new) (simp add: new_TrieNode_def)

lemma stored_Nil: "stored node [] = (if isPattern node then Some (category node) else None)"
  by (simp add: stored_def)

lemma stored_Cons:
  "stored node (ch # rest) = (case children node ch of None \<Rightarrow> None | Some n \<Rightarrow> stored n rest)"
  by (simp add: stored_def split: option.splits)

lemma stored_insert_from:
  "stored (insert_from node p cat) s = (if s = p then Some (Some cat) else stored node s)"
proof (induction p arbitrary: node s)
  case Nil
  show ?case by (cases s) (simp_all add: stored_Nil stored_Cons)
next
  case (Cons ch rest)
  show ?case
  proof (cases s)
    case Nil
    then show ?thesis by (simp add: stored_Nil Let_def)
  next
    case (Cons a s')
    then show ?thesis
      using Cons.IH by (auto simp add: stored_Cons Let_def stored_new split: option.splits)
  qed
qed

lemma searchFrom_loop_None_iff:
  "searchFrom_loop (Some node) rest = None \<longleftrightarrow> (\<forall>p. prefix p rest \<longrightarrow> stored node p = None)"
proof (induction rest arbitrary: node)
  case Nil
  show ?case by (simp add: stored_Nil)
next
  case (Cons ch rest)
  show ?case
  proof (cases "isPattern node")
    case True
    then have "stored node [] \<noteq> None" by (simp add: stored_Nil)
    with True show ?thesis by (auto intro: exI[of _ "[]"])
  next
    case False
    show ?thesis
    proof (cases "children node ch")
      case None
      with False show ?thesis
        by (auto simp add: prefix_Cons stored_Nil stored_Cons)
    next
      case (Some n)
      with False Cons.IH[of n] show ?thesis
        by (auto simp add: prefix_Cons stored_Nil stored_Cons)
    qed
  qed
qed

lemma first_stored_terminal:
  "isPattern node \<Longrightarrow> first_stored node rest p \<longleftrightarrow> p = []"
proof (cases p)
  case Nil
  assume "isPattern node"
  with Nil show ?thesis by (simp add: first_stored_def stored_Nil)
next
  case (Cons a list)
  assume "isPattern node"
  then have "stored node [] \<noteq> None" by (simp add: stored_Nil)
  moreover have "strict_prefix [] p" using Cons by simp
  ultimately show ?thesis using Cons by (auto simp add: first_stored_def)
qed

lemma first_stored_Cons:
  assumes "\<not> isPattern node"
  shows "first_stored node (ch # rest) p \<longleftrightarrow>
     (\<exists>n p'. children node ch = Some n \<and> p = ch # p' \<and> first_stored n rest p')"
proof
  assume L: "first_stored node (ch # rest) p"
  then have ne: "stored node p \<noteq> None" and pre: "prefix p (ch # rest)"
    and min: "\<And>q. strict_prefix q p \<Longrightarrow> stored node q = None"
    by (simp_all add: first_stored_def)
  from ne assms have "p \<noteq> []" by (auto simp add: stored_Nil)
  with pre obtain p' where p: "p = ch # p'" and pre': "prefix p' rest"
    by (auto simp add: prefix_Cons)
  from ne p obtain n where n: "children node ch = Some n" and ne': "stored n p' \<noteq> None"
    by (auto simp add: stored_Cons split: option.splits)
  have "stored n q = None" if "strict_prefix q p'" for q
  proof -
    from that have "strict_prefix (ch # q) p" by (simp add: p)
    from min[OF this] show ?thesis by (simp add: stored_Cons n)
  qed
  with pre' ne' have "first_stored n rest p'" by (simp add: first_stored_def)
  with n p show "\<exists>n p'. children node ch = Some n \<and> p = ch # p' \<and> first_stored n rest p'"
    by blast
next
  assume "\<exists>n p'. children node ch = Some n \<and> p = ch # p' \<and> first_stored n rest p'"
  then obtain n p' where n: "children node ch = Some n" and p: "p = ch # p'"
    and F: "first_stored n rest p'" by blast
  have "stored node q = None" if "strict_prefix q p" for q
  proof (cases q)
    case Nil
    with assms show ?thesis by (simp add: stored_Nil)
  next
    case (Cons a q')
    with that p have "a = ch" "strict_prefix q' p'" by simp_all
    with F Cons n show ?thesis by (simp add: first_stored_def stored_Cons)
  qed
  with F n p show "first_stored node (ch # rest) p"
    by (simp add: first_stored_def stored_Cons)
qed

lemma first_stored_Nil:
  "\<not> isPattern node \<Longrightarrow> \<not> first_stored node [] p"
  by (auto simp add: first_stored_def stored_Nil)

lemma searchFrom_loop_Some_iff:
  "searchFrom_loop (Some node) rest = Some r \<longleftrightarrow>
     (\<exists>p. first_stored node rest p \<and>
        r = \<lparr>matched = True, result_category = the (stored node p)\<rparr>)"
proof (induction rest arbitrary: node)
  case Nil
  show ?case
    by (cases "isPattern node") (auto simp add: first_stored_terminal first_stored_Nil stored_Nil)
next
  case (Cons ch rest)
  show ?case
  proof (cases "isPattern node")
    case True
    then show ?thesis by (auto simp add: first_stored_terminal stored_Nil)
  next
    case False
    then show ?thesis
      using Cons.IH
      by (cases "children node ch") (auto simp add: first_stored_Cons stored_Cons)
  qed
qed

lemma matches_loop_None_iff:
  "matches_loop ft u i = None \<longleftrightarrow> (\<forall>j. i \<le> j \<and> j < length u \<longrightarrow> searchFrom ft u j = None)"
proof (induction ft u i rule: matches_loop.induct)
  case (1 ft u i)
  show ?case
  proof (cases "i < length u")
    case False
    then show ?thesis by (subst matches_loop.simps) auto
  next
    case True
    show ?thesis
    proof (cases "searchFrom ft u i")
      case (Some r)
      with True show ?thesis by (subst matches_loop.simps) auto
    next
      case None
      have "(\<forall>j. i \<le> j \<and> j < length u \<longrightarrow> searchFrom ft u j = None) \<longleftrightarrow>
            (\<forall>j. i + 1 \<le> j \<and> j < length u \<longrightarrow> searchFrom ft u j = None)"
      proof
        assume "\<forall>j. i \<le> j \<and> j < length u \<longrightarrow> searchFrom ft u j = None"
        then show "\<forall>j. i + 1 \<le> j \<and> j < length u \<longrightarrow> searchFrom ft u j = None" by simp
      next
        assume R: "\<forall>j. i + 1 \<le> j \<and> j < length u \<longrightarrow> searchFrom ft u j = None"
        show "\<forall>j. i \<le> j \<and> j < length u \<longrightarrow> searchFrom ft u j = None"
        proof (intro allI impI)
          fix j assume "i \<le> j \<and> j < length u"
          then show "searchFrom ft u j = None"
            using R None by (cases "j = i") auto
        qed
      qed
      with True None "1.IH" show ?thesis by (subst matches_loop.simps) simp
    qed
  qed
qed

lemma matches_loop_Some_iff:
  "matches_loop ft u i = Some r \<longleftrightarrow>
     (\<exists>j. i \<le> j \<and> j < length u \<and> searchFrom ft u j = Some r \<and>
          (\<forall>k. i \<le> k \<and> k < j \<longrightarrow> searchFrom ft u k = None))"
proof (induction ft u i rule: matches_loop.induct)
  case (1 ft u i)
  let ?P = "\<lambda>i j. i \<le> j \<and> j < length u \<and> searchFrom ft u j = Some r \<and>
          (\<forall>k. i \<le> k \<and> k < j \<longrightarrow> searchFrom ft u k = None)"
  show ?case
  proof (cases "i < length u")
    case False
    then show ?thesis by (subst matches_loop.simps) auto
  next
    case True
    show ?thesis
    proof (cases "searchFrom ft u i")
      case (Some r')
      have "(\<exists>j. ?P i j) \<longleftrightarrow> r' = r"
      proof
        assume "\<exists>j. ?P i j"
        then obtain j where j: "?P i j" ..
        show "r' = r"
        proof (cases "j = i")
          case True
          with j Some show ?thesis by simp
        next
          case False
          with j have "searchFrom ft u i = None" by simp
          with Some show ?thesis by simp
        qed
      next
        assume "r' = r"
        with Some True have "?P i i" by auto
        then show "\<exists>j. ?P i j" ..
      qed
      with True Some show ?thesis by (subst matches_loop.simps) simp
    next
      case None
      have "(\<exists>j. ?P i j) \<longleftrightarrow> (\<exists>j. ?P (i + 1) j)"
      proof
        assume "\<exists>j. ?P i j"
        then obtain j where j: "?P i j" ..
        with None have "j \<noteq> i" by auto
        with j have "?P (i + 1) j" by simp
        then show "\<exists>j. ?P (i + 1) j" ..
      next
        assume "\<exists>j. ?P (i + 1) j"
        then obtain j where j: "?P (i + 1) j" ..
        have "searchFrom ft u k = None" if "i \<le> k \<and> k < j" for k
          using that j None by (cases "k = i") auto
        with j have "?P i j" by simp
        then show "\<exists>j. ?P i j" ..
      qed
      with True None "1.IH" show ?thesis by (subst matches_loop.simps) simp
    qed
  qed
qed


lemma stored_insert:
  "stored (root (FilterTrie_insert ft p c)) s =
     (if s = cleanPattern p then Some (Some c) else stored (root ft) s)"
  by (simp add: FilterTrie_insert_def stored_insert_from)

lemma insert_all_snoc: "insert_all (rs @ [(p, c)]) = FilterTrie_insert (insert_all rs) p c"
  by (simp add: insert_all_def)

lemma stored_insert_all:
  "stored (root (insert_all rs)) s =
     map_option Some (map_of (rev (map (\<lambda>(p, c). (cleanPattern p, c)) rs)) s)"
proof (induction rs rule: rev_induct)
  case Nil
  show ?case by (simp add: insert_all_def new_FilterTrie_def stored_new)
next
  case (snoc x rs)
  obtain p c where x: "x = (p, c)" by (cases x)
  show ?case unfolding x insert_all_snoc stored_insert using snoc.IH by simp
qed

lemma stored_insert_all_SomeD:
  assumes "stored (root (insert_all rs)) s = Some x"
  shows "\<exists>p c. (p, c) \<in> set rs \<and> cleanPattern p = s \<and> x = Some c"
proof -
  from assms obtain c where c: "map_of (rev (map (\<lambda>(p, c). (cleanPattern p, c)) rs)) s = Some c"
    and x: "x = Some c"
    by (auto simp add: stored_insert_all)
  from map_of_SomeD[OF c] have "(s, c) \<in> set (map (\<lambda>(p, c). (cleanPattern p, c)) rs)" by simp
  then obtain p where "(p, c) \<in> set rs" "cleanPattern p = s" by auto
  with x show ?thesis by blast
qed

lemma stored_insert_all_mem:
  assumes "(p, c) \<in> set rs"
  shows "stored (root (insert_all rs)) (cleanPattern p) \<noteq> None"
proof -
  from assms have "cleanPattern p \<in> fst ` set (rev (map (\<lambda>(p, c). (cleanPattern p, c)) rs))"
    by force
  then have "map_of (rev (map (\<lambda>(p, c). (cleanPattern p, c)) rs)) (cleanPattern p) \<noteq> None"
    by (simp only: map_of_eq_None_iff not_not)
  then show ?thesis by (simp add: stored_insert_all)
qed

section \<open>Matching\<close>

text \<open>
  C1 (as the claim states it, refuted). With the rules \<^verbatim>\<open>||ad.com^\<close> (Ad) and
  \<^verbatim>\<open>||trk.io^\<close> (Tracker) inserted, the lowercased URL \<^verbatim>\<open>http://ad.com/trk.io\<close> has a
  suffix that starts with the cleaned Tracker pattern, yet the match found first, at
  offset 7, is the Ad pattern. And with a pattern that cleans to the empty string, the
  empty URL has a suffix that starts with it and is not matched.
\<close>

theorem matches_category_counterexample:
  "(''||trk.io^'', Tracker) \<in> set [(''||ad.com^'', Ad), (''||trk.io^'', Tracker)] \<and>
   prefix (cleanPattern ''||trk.io^'') (drop 14 (toLowerCase ''http://AD.com/trk.io'')) \<and>
   matches (insert_all [(''||ad.com^'', Ad), (''||trk.io^'', Tracker)]) ''http://AD.com/trk.io''
     = Some \<lparr>matched = True, result_category = Some Ad\<rparr> \<and>
   matches (insert_all [(''||ad.com^'', Ad), (''||trk.io^'', Tracker)]) ''http://AD.com/trk.io''
     \<noteq> Some \<lparr>matched = True, result_category = Some Tracker\<rparr> \<and>
   prefix (cleanPattern ''||^'') (drop 0 (toLowerCase [])) \<and>
   matches (insert_all [(''||^'', Ad)]) [] = None"
  by code_simp

text \<open>
  C1 (amended). For patterns and URLs of code units below 256: let the pattern store be
  built by any sequence of inserts, let \<open>P\<close> be inserted with category \<open>C\<close>, and let
  some suffix of the lowercased, non-empty URL start with the cleaned form of \<open>P\<close>.
  Then \<open>matches\<close> returns \<open>matched: true\<close> with the category of the match found first:
  an inserted pattern \<open>P'\<close> whose cleaned form starts the suffix at an offset \<open>j\<close> such
  that no inserted pattern occurs at an earlier offset and none with a shorter cleaned
  form occurs at \<open>j\<close>; the category is the one of the last insert with that cleaned
  form. So the category is \<open>C\<close> when every inserted pattern that occurs in the URL has
  category \<open>C\<close>.
\<close>

theorem matches_finds_inserted_pattern:
  assumes ins: "(P, C) \<in> set rules"
    and ne: "u \<noteq> []"
    and suf: "prefix (cleanPattern P) (drop i (toLowerCase u))"
  shows "(\<exists>P' C' j. (P', C') \<in> set rules \<and> j < length u \<and>
            prefix (cleanPattern P') (drop j (toLowerCase u)) \<and>
            (\<forall>k Q D. k < j \<and> (Q, D) \<in> set rules \<longrightarrow>
               \<not> prefix (cleanPattern Q) (drop k (toLowerCase u))) \<and>
            (\<forall>Q D. (Q, D) \<in> set rules \<and> prefix (cleanPattern Q) (drop j (toLowerCase u)) \<longrightarrow>
               length (cleanPattern P') \<le> length (cleanPattern Q)) \<and>
            inserted_category rules (cleanPattern P') = Some C' \<and>
            matches (insert_all rules) u = Some \<lparr>matched = True, result_category = Some C'\<rparr>) \<and>
         ((\<forall>P' C' j. (P', C') \<in> set rules \<and>
              prefix (cleanPattern P') (drop j (toLowerCase u)) \<longrightarrow> C' = C) \<longrightarrow>
          matches (insert_all rules) u = Some \<lparr>matched = True, result_category = Some C\<rparr>)"
proof -
  let ?u = "toLowerCase u"
  let ?ft = "insert_all rules"
  have len: "length ?u = length u" by (simp add: toLowerCase_def)
  define i' where "i' = (if i < length ?u then i else 0)"
  have i': "i' < length ?u" using ne len by (simp add: i'_def)
  have "prefix (cleanPattern P) (drop i' ?u)"
  proof (cases "i < length ?u")
    case True
    with suf show ?thesis by (simp add: i'_def)
  next
    case False
    with suf have "cleanPattern P = []" by simp
    then show ?thesis by simp
  qed
  moreover have "stored (root ?ft) (cleanPattern P) \<noteq> None"
    using ins by (rule stored_insert_all_mem)
  ultimately have "searchFrom ?ft ?u i' \<noteq> None"
    by (auto simp add: searchFrom_def searchFrom_loop_None_iff)
  with i' have "matches ?ft u \<noteq> None"
    by (auto simp add: matches_def matches_loop_None_iff)
  then obtain r where r: "matches ?ft u = Some r" by auto
  then obtain j where j: "j < length ?u" and sj: "searchFrom ?ft ?u j = Some r"
    and before: "\<forall>k. k < j \<longrightarrow> searchFrom ?ft ?u k = None"
    by (auto simp add: matches_def matches_loop_Some_iff)
  from sj obtain q where q: "first_stored (root ?ft) (drop j ?u) q"
    and rq: "r = \<lparr>matched = True, result_category = the (stored (root ?ft) q)\<rparr>"
    by (auto simp add: searchFrom_def searchFrom_loop_Some_iff)
  from q obtain x where x: "stored (root ?ft) q = Some x" and pq: "prefix q (drop j ?u)"
    and least: "\<forall>q'. strict_prefix q' q \<longrightarrow> stored (root ?ft) q' = None"
    by (auto simp add: first_stored_def)
  from x obtain C' where cat: "inserted_category rules q = Some C'" and xC: "x = Some C'"
    by (auto simp add: stored_insert_all inserted_category_def)
  from stored_insert_all_SomeD[OF x] xC obtain P' where
    P': "(P', C') \<in> set rules" "cleanPattern P' = q" by blast
  have earlier: "\<not> prefix (cleanPattern Q) (drop k ?u)" if "k < j \<and> (Q, D) \<in> set rules" for k Q D
  proof
    assume pre: "prefix (cleanPattern Q) (drop k ?u)"
    from that before have "searchFrom ?ft ?u k = None" by simp
    with pre have "stored (root ?ft) (cleanPattern Q) = None"
      by (simp add: searchFrom_def searchFrom_loop_None_iff)
    moreover from that have "(Q, D) \<in> set rules" by simp
    then have "stored (root ?ft) (cleanPattern Q) \<noteq> None"
      by (rule stored_insert_all_mem)
    ultimately show False by simp
  qed
  have shortest: "length q \<le> length (cleanPattern Q)"
    if "(Q, D) \<in> set rules \<and> prefix (cleanPattern Q) (drop j ?u)" for Q D
  proof (rule ccontr)
    assume "\<not> length q \<le> length (cleanPattern Q)"
    then have shorter: "length (cleanPattern Q) < length q" by simp
    from that have "prefix (cleanPattern Q) (drop j ?u)" by simp
    from prefix_same_cases[OF this pq]
    have "prefix (cleanPattern Q) q \<or> prefix q (cleanPattern Q)" .
    with shorter have "strict_prefix (cleanPattern Q) q"
      by (auto simp add: strict_prefix_def dest: prefix_length_le)
    with least have "stored (root ?ft) (cleanPattern Q) = None" by simp
    moreover from that have "(Q, D) \<in> set rules" by simp
    then have "stored (root ?ft) (cleanPattern Q) \<noteq> None"
      by (rule stored_insert_all_mem)
    ultimately show False by simp
  qed
  have res: "matches ?ft u = Some \<lparr>matched = True, result_category = Some C'\<rparr>"
    using r rq x xC by simp
  have found: "(P', C') \<in> set rules \<and> j < length u \<and>
      prefix (cleanPattern P') (drop j ?u) \<and>
      (\<forall>k Q D. k < j \<and> (Q, D) \<in> set rules \<longrightarrow> \<not> prefix (cleanPattern Q) (drop k ?u)) \<and>
      (\<forall>Q D. (Q, D) \<in> set rules \<and> prefix (cleanPattern Q) (drop j ?u) \<longrightarrow>
         length (cleanPattern P') \<le> length (cleanPattern Q)) \<and>
      inserted_category rules (cleanPattern P') = Some C' \<and>
      matches ?ft u = Some \<lparr>matched = True, result_category = Some C'\<rparr>"
    using P' j len pq earlier shortest cat res by (intro conjI allI impI) simp_all
  show ?thesis
  proof (intro conjI impI)
    from found show "\<exists>P' C' j. (P', C') \<in> set rules \<and> j < length u \<and>
      prefix (cleanPattern P') (drop j ?u) \<and>
      (\<forall>k Q D. k < j \<and> (Q, D) \<in> set rules \<longrightarrow> \<not> prefix (cleanPattern Q) (drop k ?u)) \<and>
      (\<forall>Q D. (Q, D) \<in> set rules \<and> prefix (cleanPattern Q) (drop j ?u) \<longrightarrow>
         length (cleanPattern P') \<le> length (cleanPattern Q)) \<and>
      inserted_category rules (cleanPattern P') = Some C' \<and>
      matches ?ft u = Some \<lparr>matched = True, result_category = Some C'\<rparr>"
      by (intro exI)
  next
    assume "\<forall>P' C' j. (P', C') \<in> set rules \<and>
              prefix (cleanPattern P') (drop j ?u) \<longrightarrow> C' = C"
    with P' pq have "C' = C" by blast
    with res show "matches ?ft u = Some \<lparr>matched = True, result_category = Some C\<rparr>"
      by simp
  qed
qed

theorem matches_finds_inserted_pattern_witness:
  "\<exists>P' C' j. (P', C') \<in> set [(''||ad.com^'', Ad), (''||trk.io^'', Tracker)] \<and>
       j < length ''http://AD.com/trk.io'' \<and>
       prefix (cleanPattern P') (drop j (toLowerCase ''http://AD.com/trk.io'')) \<and>
       inserted_category [(''||ad.com^'', Ad), (''||trk.io^'', Tracker)] (cleanPattern P') = Some C' \<and>
       matches (insert_all [(''||ad.com^'', Ad), (''||trk.io^'', Tracker)]) ''http://AD.com/trk.io''
         = Some \<lparr>matched = True, result_category = Some C'\<rparr>"
proof -
  have a: "(''||trk.io^'', Tracker) \<in> set [(''||ad.com^'', Ad), (''||trk.io^'', Tracker)]"
    by simp
  have b: "''http://AD.com/trk.io'' \<noteq> []" by simp
  have c: "prefix (cleanPattern ''||trk.io^'') (drop 14 (toLowerCase ''http://AD.com/trk.io''))"
    by code_simp
  from matches_finds_inserted_pattern[OF a b c, THEN conjunct1]
  obtain P' C' j where
    "(P', C') \<in> set [(''||ad.com^'', Ad), (''||trk.io^'', Tracker)]"
    "j < length ''http://AD.com/trk.io''"
    "prefix (cleanPattern P') (drop j (toLowerCase ''http://AD.com/trk.io''))"
    "inserted_category [(''||ad.com^'', Ad), (''||trk.io^'', Tracker)] (cleanPattern P') = Some C'"
    "matches (insert_all [(''||ad.com^'', Ad), (''||trk.io^'', Tracker)]) ''http://AD.com/trk.io''
         = Some \<lparr>matched = True, result_category = Some C'\<rparr>"
    by (elim exE conjE)
  then show ?thesis by (intro exI conjI)
qed

text \<open>
  C2. \<open>matches\<close> scans the offsets of the lowercased URL from the left, and at one offset
  returns at the first terminal node. So when \<open>p1\<close> is a stored pattern with category
  \<open>c1\<close> that matches at offset \<open>i\<close>, no shorter stored pattern matches at \<open>i\<close> (every
  other stored pattern that matches there is longer), and no stored pattern matches
  at an earlier offset, then the result carries \<open>c1\<close>, whatever matches at later
  offsets.
\<close>

theorem matches_first_offset_shortest_pattern:
  assumes off: "i < length u"
    and p1: "prefix p1 (drop i (toLowerCase u))"
    and st: "stored (root ft) p1 = Some c1"
    and shortest: "\<forall>p. strict_prefix p p1 \<longrightarrow> stored (root ft) p = None"
    and earliest: "\<forall>j p. j < i \<and> prefix p (drop j (toLowerCase u)) \<longrightarrow> stored (root ft) p = None"
  shows "matches ft u = Some \<lparr>matched = True, result_category = c1\<rparr>"
proof -
  let ?u = "toLowerCase u"
  have len: "length ?u = length u" by (simp add: toLowerCase_def)
  from p1 st shortest have "first_stored (root ft) (drop i ?u) p1"
    by (simp add: first_stored_def)
  with st have "searchFrom ft ?u i = Some \<lparr>matched = True, result_category = c1\<rparr>"
    by (auto simp add: searchFrom_def searchFrom_loop_Some_iff)
  moreover have "\<forall>k. 0 \<le> k \<and> k < i \<longrightarrow> searchFrom ft ?u k = None"
    using earliest by (simp add: searchFrom_def searchFrom_loop_None_iff)
  ultimately show ?thesis
    using off len unfolding matches_def matches_loop_Some_iff by auto
qed

lemma no_shorter_stored:
  assumes "searchFrom_loop (Some node) q = None"
  shows "\<forall>p. strict_prefix p (q @ [x]) \<longrightarrow> stored node p = None"
proof (intro allI impI)
  fix p assume "strict_prefix p (q @ [x])"
  then have "prefix p q" by (auto simp add: strict_prefix_def prefix_snoc)
  with assms show "stored node p = None" by (simp add: searchFrom_loop_None_iff)
qed

lemma no_earlier_match:
  assumes "list_all (\<lambda>j. searchFrom ft v j = None) [0..<i]"
  shows "\<forall>j p. j < i \<and> prefix p (drop j v) \<longrightarrow> stored (root ft) p = None"
proof (intro allI impI)
  fix j p assume "j < i \<and> prefix p (drop j v)"
  moreover from this assms have "searchFrom ft v j = None" by (simp add: list_all_iff)
  ultimately show "stored (root ft) p = None"
    by (simp add: searchFrom_def searchFrom_loop_None_iff)
qed

theorem matches_first_offset_shortest_pattern_witness:
  "prefix ''ads.net'' (drop 7 (toLowerCase ''http://ADS.net/track'')) \<and>
   prefix ''ads.net/track'' (drop 7 (toLowerCase ''http://ADS.net/track'')) \<and>
   prefix ''track'' (drop 15 (toLowerCase ''http://ADS.net/track'')) \<and>
   matches (insert_all [(''track'', Tracker), (''||ads.net/track'', Tracker), (''||ads.net^'', Ad)])
     ''http://ADS.net/track'' = Some \<lparr>matched = True, result_category = Some Ad\<rparr>"
proof -
  let ?ft = "insert_all [(''track'', Tracker), (''||ads.net/track'', Tracker), (''||ads.net^'', Ad)]"
  let ?u = "''http://ADS.net/track''"
  have off: "7 < length ?u" by simp
  have p1: "prefix (''ads.ne'' @ ''t'') (drop 7 (toLowerCase ?u))" by code_simp
  have st: "stored (root ?ft) (''ads.ne'' @ ''t'') = Some (Some Ad)" by code_simp
  have "searchFrom_loop (Some (root ?ft)) ''ads.ne'' = None" by code_simp
  then have shortest: "\<forall>p. strict_prefix p (''ads.ne'' @ ''t'') \<longrightarrow> stored (root ?ft) p = None"
    by (rule no_shorter_stored)
  have "list_all (\<lambda>j. searchFrom ?ft (toLowerCase ?u) j = None) [0..<7]" by code_simp
  then have earliest:
    "\<forall>j p. j < 7 \<and> prefix p (drop j (toLowerCase ?u)) \<longrightarrow> stored (root ?ft) p = None"
    by (rule no_earlier_match)
  have "matches ?ft ?u = Some \<lparr>matched = True, result_category = Some Ad\<rparr>"
    by (rule matches_first_offset_shortest_pattern[OF off p1 st shortest earliest])
  moreover have "prefix ''ads.net'' (drop 7 (toLowerCase ?u)) \<and>
   prefix ''ads.net/track'' (drop 7 (toLowerCase ?u)) \<and>
   prefix ''track'' (drop 15 (toLowerCase ?u))" by code_simp
  ultimately show ?thesis by simp
qed

section \<open>A pattern that cleans to the empty string\<close>

lemma isPattern_insert_from:
  "isPattern (insert_from node p cat) \<longleftrightarrow> p = [] \<or> isPattern node"
  by (cases p) (simp_all add: Let_def)

lemma isPattern_root_insert:
  "isPattern (root (FilterTrie_insert ft p cat)) \<longleftrightarrow> cleanPattern p = [] \<or> isPattern (root ft)"
  by (simp add: FilterTrie_insert_def isPattern_insert_from)

lemma isPattern_root_load_line:
  "isPattern (root ft) \<Longrightarrow> isPattern (root (load_line ft line))"
  by (simp add: load_line_def Let_def isPattern_root_insert)

lemma isPattern_root_load_lines:
  "isPattern (root ft) \<Longrightarrow> isPattern (root (load_lines ft later))"
  unfolding load_lines_def
  by (induction later arbitrary: ft) (simp_all add: isPattern_root_load_line)

lemma matches_root_terminal:
  assumes "isPattern (root ft)" "u \<noteq> []"
  shows "matches ft u = Some \<lparr>matched = True, result_category = category (root ft)\<rparr>"
proof -
  from assms(2) obtain a v where v: "toLowerCase u = a # v"
    by (cases u) (simp_all add: toLowerCase_def)
  with assms(1) have "searchFrom ft (toLowerCase u) 0 =
      Some \<lparr>matched = True, result_category = category (root ft)\<rparr>"
    by (simp add: searchFrom_def)
  with v show ?thesis by (simp add: matches_def matches_loop.simps[of ft "a # v" 0])
qed

lemma matches_empty_url: "matches ft [] = None"
  by (simp add: matches_def toLowerCase_def matches_loop.simps[of ft "[]" 0])

text \<open>
  The example of the specification: the line \<^verbatim>\<open>||doubleclick.net^\<close> is categorized as a
  tracker, and a URL of a host under that domain matches with that category.
\<close>

lemma doubleclick_example:
  "matches (load_lines new_FilterTrie [''! Title: list'', ''||doubleclick.net^'', ''@@||ok.net^''])
     ''https://stats.doubleclick.net/x'' = Some \<lparr>matched = True, result_category = Some Tracker\<rparr>"
  by code_simp

text \<open>
  C9. A line that passes the skip checks of the loader and whose filter cleans to the
  empty string makes the root terminal. From then on, whatever lines are loaded after
  it, every non-empty URL is matched, and the empty URL is not.
\<close>

theorem empty_pattern_matches_every_url:
  assumes "\<not> skipped line" and "filter_of line \<noteq> []"
    and "cleanPattern (filter_of line) = []"
  shows "isPattern (root (load_line ft line)) \<and>
         (\<forall>later u. u \<noteq> [] \<longrightarrow>
            (\<exists>c. matches (load_lines (load_line ft line) later) u
                   = Some \<lparr>matched = True, result_category = c\<rparr>)) \<and>
         (\<forall>later. matches (load_lines (load_line ft line) later) [] = None)"
proof -
  from assms have rt: "isPattern (root (load_line ft line))"
    by (simp add: load_line_def Let_def isPattern_root_insert)
  have "\<exists>c. matches (load_lines (load_line ft line) later) u
               = Some \<lparr>matched = True, result_category = c\<rparr>" if "u \<noteq> []" for later u
    using matches_root_terminal[OF isPattern_root_load_lines[OF rt] that] by blast
  with rt show ?thesis by (simp add: matches_empty_url)
qed

theorem empty_pattern_matches_every_url_witness:
  "\<not> skipped ''||^'' \<and> filter_of ''||^'' \<noteq> [] \<and> cleanPattern (filter_of ''||^'') = [] \<and>
   \<not> skipped ''*'' \<and> filter_of ''*'' \<noteq> [] \<and> cleanPattern (filter_of ''*'') = [] \<and>
   isPattern (root (load_line new_FilterTrie ''||^'')) \<and>
   (\<exists>c. matches (load_lines (load_line new_FilterTrie ''||^'') [''||ads.net^''])
           ''http://example.org/'' = Some \<lparr>matched = True, result_category = c\<rparr>) \<and>
   matches (load_lines (load_line new_FilterTrie ''||^'') [''||ads.net^'']) [] = None"
proof -
  have a: "\<not> skipped ''||^''" by code_simp
  have b: "filter_of ''||^'' \<noteq> []" by code_simp
  have c: "cleanPattern (filter_of ''||^'') = []" by code_simp
  have d: "\<not> skipped ''*'' \<and> filter_of ''*'' \<noteq> [] \<and> cleanPattern (filter_of ''*'') = []"
    by code_simp
  have u: "''http://example.org/'' \<noteq> []" by simp
  note T = empty_pattern_matches_every_url[OF a b c, of new_FilterTrie]
  from T[THEN conjunct2, THEN conjunct1, rule_format, OF u, of "[''||ads.net^'']"]
    T[THEN conjunct1] T[THEN conjunct2, THEN conjunct2, rule_format, of "[''||ads.net^'']"]
    a b c d
  show ?thesis by (intro conjI) simp_all
qed

section \<open>The cache\<close>

lemma Map_set_new: "k \<notin> fst ` set m \<Longrightarrow> Map_set m k v = m @ [(k, v)]"
  by (induction m) auto

lemma keys_Map_delete: "fst ` set (Map_delete m k) = fst ` set m - {k}"
  by (auto simp add: Map_delete_def)

lemma length_Map_set: "length (Map_set m k v) \<le> Suc (length m)"
  by (induction m) auto

lemma length_Map_delete_head: "length (Map_delete (e # m) (fst e)) \<le> length m"
  by (simp add: Map_delete_def)

lemma Map_has_iff: "Map_has m k \<longleftrightarrow> k \<in> fst ` set m"
  by (simp add: Map_has_def map_of_eq_None_iff)

lemma LRUCache_get_present:
  assumes "Map_get (cache c) k = Some v"
  shows "LRUCache_get c k = (Some v, c\<lparr>cache := Map_delete (cache c) k @ [(k, v)]\<rparr>)"
proof -
  have "k \<notin> fst ` set (Map_delete (cache c) k)" by (simp add: keys_Map_delete)
  then have "Map_set (Map_delete (cache c) k) k v = Map_delete (cache c) k @ [(k, v)]"
    by (rule Map_set_new)
  with assms show ?thesis by (simp add: LRUCache_get_def Map_has_def Map_get_def)
qed

lemma LRUCache_get_absent:
  assumes "Map_get (cache c) k = None"
  shows "LRUCache_get c k = (None, c)"
  using assms by (simp add: LRUCache_get_def Map_has_def Map_get_def)

text \<open>
  The example of the specification: with capacity 2, \<open>set(a,1); set(b,2); get(a);
  set(d,3)\<close> leaves \<open>a\<close> and \<open>d\<close>.
\<close>

lemma lru_example:
  assumes "a \<noteq> b" "b \<noteq> d" "a \<noteq> d"
  shows "cache (cache_run (new_LRUCache 2) [Set a v1, Set b v2, Get a, Set d v3])
           = [(a, v1), (d, v3)]"
  using assms
  by (simp add: cache_run_def new_LRUCache_def LRUCache_set_def LRUCache_get_def
      Map_has_def Map_get_def Map_delete_def)

lemma last_use_le: "last_use xs k \<le> length xs"
  by (induction xs) auto

lemma last_use_snoc:
  "last_use (xs @ [x]) k = (if used_key x = Some k then Suc (length xs) else last_use xs k)"
proof (induction xs)
  case Nil
  show ?case by simp
next
  case (Cons y ys)
  then show ?case by auto
qed

lemma sets_absent_only_snoc:
  "sets_absent_only c (xs @ [x]) \<longleftrightarrow>
     sets_absent_only c xs \<and>
     (case x of Set k v \<Rightarrow> \<not> LRUCache_has (cache_run c xs) k | _ \<Rightarrow> True)"
  by (induction xs arbitrary: c) (auto simp add: cache_run_def split: cache_op.splits)

lemma cache_run_snoc: "cache_run c (xs @ [x]) = cache_step (cache_run c xs) x"
  by (simp add: cache_run_def)

text \<open>
  An entry moved or added at the end by the call number \<open>Suc (length xs)\<close> keeps the
  entries in the order of their last use.
\<close>

lemma use_order_append:
  assumes ord: "sorted_wrt (<) (map (\<lambda>e. last_use xs (fst e)) m)"
    and sub: "set m' \<subseteq> set m" and filt: "m' = filter Q m"
    and nk: "k \<notin> fst ` set m'" and uk: "used_key x = Some k"
  shows "sorted_wrt (<) (map (\<lambda>e. last_use (xs @ [x]) (fst e)) (m' @ [(k, v)]))"
proof -
  have same: "last_use (xs @ [x]) (fst e) = last_use xs (fst e)" if "e \<in> set m'" for e
  proof -
    from that nk have "fst e \<noteq> k" by auto
    with uk show ?thesis by (simp add: last_use_snoc)
  qed
  then have eq: "map (\<lambda>e. last_use (xs @ [x]) (fst e)) m' = map (\<lambda>e. last_use xs (fst e)) m'"
    by simp
  have "sorted_wrt (<) (map (\<lambda>e. last_use xs (fst e)) (filter Q m))"
    using ord by (simp add: sorted_wrt_map sorted_wrt_filter)
  with filt have s1: "sorted_wrt (<) (map (\<lambda>e. last_use xs (fst e)) m')" by simp
  have top: "last_use (xs @ [x]) k = Suc (length xs)" using uk by (simp add: last_use_snoc)
  have below: "\<forall>e\<in>set m'. last_use xs (fst e) < Suc (length xs)"
    using last_use_le[of xs] by (simp add: less_Suc_eq_le)
  show ?thesis
    using s1 below by (simp add: sorted_wrt_append eq top)
qed

lemma use_order_keep:
  assumes ord: "sorted_wrt (<) (map (\<lambda>e. last_use xs (fst e)) m)"
    and nk: "\<forall>k. used_key x = Some k \<longrightarrow> k \<notin> fst ` set m"
  shows "sorted_wrt (<) (map (\<lambda>e. last_use (xs @ [x]) (fst e)) m)"
proof -
  have "last_use (xs @ [x]) (fst e) = last_use xs (fst e)" if "e \<in> set m" for e
    using that nk by (auto simp add: last_use_snoc)
  then have eq: "map (\<lambda>e. last_use (xs @ [x]) (fst e)) m = map (\<lambda>e. last_use xs (fst e)) m"
    by simp
  show ?thesis unfolding eq by (rule ord)
qed

lemma use_order_step:
  assumes ord: "sorted_wrt (<) (map (\<lambda>e. last_use xs (fst e)) (cache c))"
    and ok: "case x of Set k v \<Rightarrow> \<not> LRUCache_has c k | _ \<Rightarrow> True"
  shows "sorted_wrt (<) (map (\<lambda>e. last_use (xs @ [x]) (fst e)) (cache (cache_step c x)))"
proof (cases x)
  case (Has k)
  with ord show ?thesis by (simp add: use_order_keep)
next
  case (Get k)
  show ?thesis
  proof (cases "Map_get (cache c) k")
    case None
    then have "k \<notin> fst ` set (cache c)" by (simp add: Map_get_def map_of_eq_None_iff)
    with ord Get None show ?thesis by (simp add: LRUCache_get_absent use_order_keep)
  next
    case (Some v)
    have "sorted_wrt (<) (map (\<lambda>e. last_use (xs @ [x]) (fst e)) (Map_delete (cache c) k @ [(k, v)]))"
    proof (rule use_order_append[OF ord])
      show "set (Map_delete (cache c) k) \<subseteq> set (cache c)" by (auto simp add: Map_delete_def)
      show "Map_delete (cache c) k = filter (\<lambda>e. fst e \<noteq> k) (cache c)" by (simp add: Map_delete_def)
      show "k \<notin> fst ` set (Map_delete (cache c) k)" by (simp add: keys_Map_delete)
      show "used_key x = Some k" using Get by simp
    qed
    with Get Some show ?thesis by (simp add: LRUCache_get_present)
  qed
next
  case (Set k v)
  with ok have absent: "k \<notin> fst ` set (cache c)" by (simp add: LRUCache_has_def Map_has_iff)
  define m where "m = (if maxSize c \<le> length (cache c)
               then (case cache c of [] \<Rightarrow> [] | e # _ \<Rightarrow> Map_delete (cache c) (fst e))
               else cache c)"
  have "\<exists>Q. m = filter Q (cache c)"
  proof (cases "maxSize c \<le> length (cache c)")
    case False
    then have "m = filter (\<lambda>_. True) (cache c)" by (simp add: m_def)
    then show ?thesis by blast
  next
    case True
    show ?thesis
    proof (cases "cache c")
      case Nil
      with True have "m = filter (\<lambda>_. True) (cache c)" by (simp add: m_def)
      then show ?thesis by blast
    next
      case (Cons e rest)
      with True have "m = filter (\<lambda>y. fst y \<noteq> fst e) (cache c)"
        by (simp add: m_def Map_delete_def)
      then show ?thesis by blast
    qed
  qed
  then obtain Q where Q: "m = filter Q (cache c)" ..
  then have sub: "set m \<subseteq> set (cache c)" by auto
  with absent have nk: "k \<notin> fst ` set m" by auto
  have "sorted_wrt (<) (map (\<lambda>e. last_use (xs @ [x]) (fst e)) (m @ [(k, v)]))"
    using use_order_append[OF ord sub Q nk] Set by simp
  moreover have "cache (cache_step c x) = m @ [(k, v)]"
    using Set nk by (simp add: LRUCache_set_def m_def Map_set_new Let_def)
  ultimately show ?thesis by simp
qed

text \<open>
  When every \<^verbatim>\<open>set\<close> is for an absent key, the order of the map is the order of last
  use, so the first entry, which \<^verbatim>\<open>set\<close> drops at capacity, is the least recently used.
\<close>

lemma use_order_run:
  assumes "sets_absent_only (new_LRUCache n) xs"
  shows "sorted_wrt (<) (map (\<lambda>e. last_use xs (fst e)) (cache (cache_run (new_LRUCache n) xs)))"
  using assms
proof (induction xs rule: rev_induct)
  case Nil
  show ?case by (simp add: cache_run_def new_LRUCache_def)
next
  case (snoc x xs)
  from snoc.prems have a: "sets_absent_only (new_LRUCache n) xs"
    and b: "case x of Set k v \<Rightarrow> \<not> LRUCache_has (cache_run (new_LRUCache n) xs) k | _ \<Rightarrow> True"
    by (simp_all add: sets_absent_only_snoc)
  from use_order_step[OF snoc.IH[OF a] b] show ?case by (simp add: cache_run_snoc)
qed

lemma evicted_is_least_recently_used:
  assumes "sets_absent_only (new_LRUCache n) xs"
    and "cache (cache_run (new_LRUCache n) xs) = e # rest"
  shows "\<forall>y\<in>set rest. last_use xs (fst e) < last_use xs (fst y)"
  using use_order_run[OF assms(1)] assms(2) by simp


lemma cache_step_bounded:
  assumes "1 \<le> maxSize c" "length (cache c) \<le> maxSize c"
  shows "length (cache (cache_step c x)) \<le> maxSize c \<and> maxSize (cache_step c x) = maxSize c"
proof (cases x)
  case (Get k)
  show ?thesis
  proof (cases "Map_get (cache c) k")
    case None
    with Get assms show ?thesis by (simp add: LRUCache_get_absent)
  next
    case (Some v)
    then have "k \<in> fst ` set (cache c)"
      by (simp add: Map_get_def) (metis map_of_eq_None_iff option.distinct(1))
    then have "length (Map_delete (cache c) k) < length (cache c)"
      unfolding Map_delete_def by (auto intro!: length_filter_less)
    with Get Some assms show ?thesis by (simp add: LRUCache_get_present)
  qed
next
  case (Set k v)
  show ?thesis
  proof (cases "maxSize c \<le> length (cache c)")
    case True
    with assms obtain e rest where e: "cache c = e # rest" by (cases "cache c") auto
    have "length (Map_set (Map_delete (e # rest) (fst e)) k v)
            \<le> Suc (length (Map_delete (e # rest) (fst e)))" by (rule length_Map_set)
    also have "\<dots> \<le> Suc (length rest)" using length_Map_delete_head[of e rest] by simp
    finally show ?thesis using Set True e assms by (simp add: LRUCache_set_def)
  next
    case False
    with Set length_Map_set[of "cache c" k v] show ?thesis by (simp add: LRUCache_set_def)
  qed
next
  case (Has k)
  with assms show ?thesis by simp
qed

lemma cache_run_bounded:
  assumes "1 \<le> maxSize c" "length (cache c) \<le> maxSize c"
  shows "length (cache (cache_run c xs)) \<le> maxSize c \<and> maxSize (cache_run c xs) = maxSize c"
  using assms
proof (induction xs arbitrary: c)
  case Nil
  then show ?case by (simp add: cache_run_def)
next
  case (Cons x xs)
  from cache_step_bounded[OF Cons.prems]
  have s: "length (cache (cache_step c x)) \<le> maxSize c" "maxSize (cache_step c x) = maxSize c"
    by simp_all
  with Cons.prems Cons.IH[of "cache_step c x"] show ?case by (simp add: cache_run_def)
qed

text \<open>
  C10. With a capacity of at least 1, every sequence of \<open>get\<close>, \<open>set\<close> and \<open>has\<close> calls
  on the empty cache leaves at most \<open>maxSize\<close> entries.
\<close>

theorem LRUCache_size_bounded:
  assumes "1 \<le> n"
  shows "length (cache (cache_run (new_LRUCache n) xs)) \<le> n"
  using cache_run_bounded[of "new_LRUCache n" xs] assms by (simp add: new_LRUCache_def)

theorem LRUCache_size_bounded_witness:
  "(1::nat) \<le> 2 \<and>
   length (cache (cache_run (new_LRUCache 2)
     [Set ''a'' (1::nat), Has ''a'', Set ''b'' 2, Get ''a'', Set ''c'' 3, Set ''d'' 4, Get ''b''])) \<le> 2"
proof -
  have h: "(1::nat) \<le> 2" by simp
  from LRUCache_size_bounded[OF h] h show ?thesis by blast
qed

text \<open>With capacity 0 the bound fails: nothing can be deleted from the empty map.\<close>

lemma LRUCache_capacity_zero:
  "length (cache (cache_run (new_LRUCache 0) [Set ''a'' (1::nat)])) = 1"
  by (simp add: cache_run_def new_LRUCache_def LRUCache_set_def)

section \<open>Sessions and navigation\<close>

lemma add_blocked_urls:
  "urls (add_blocked K td e) = (if length (urls td) < K then e # urls td else urls td)"
  by (simp add: add_blocked_def Let_def)

lemma add_blocked_totalCount: "totalCount (add_blocked K td e) = totalCount td + 1"
  by (simp add: add_blocked_def Let_def)

lemma add_blocked_counts:
  "adCount (add_blocked K td e) + trackerCount (add_blocked K td e)
     = adCount td + trackerCount td + 1"
  by (simp add: add_blocked_def Let_def)

lemma add_blocked_domain: "domain (add_blocked K td e) = domain td"
  by (simp add: add_blocked_def Let_def)

lemma foldl_add_blocked:
  "urls (foldl (add_blocked K) td es) = rev (take (K - length (urls td)) es) @ urls td \<and>
   totalCount (foldl (add_blocked K) td es) = totalCount td + length es \<and>
   adCount (foldl (add_blocked K) td es) + trackerCount (foldl (add_blocked K) td es)
     = adCount td + trackerCount td + length es \<and>
   domain (foldl (add_blocked K) td es) = domain td"
proof (induction es arbitrary: td)
  case Nil
  show ?case by simp
next
  case (Cons e es)
  show ?case
  proof (cases "length (urls td) < K")
    case True
    then obtain m where m: "K - length (urls td) = Suc m" by (cases "K - length (urls td)") auto
    then have "K - length (urls (add_blocked K td e)) = m"
      using True by (simp add: add_blocked_urls)
    with Cons.IH[of "add_blocked K td e"] m True show ?thesis
      by (simp add: add_blocked_urls add_blocked_totalCount add_blocked_counts add_blocked_domain)
  next
    case False
    then have "K - length (urls td) = 0" "K - length (urls (add_blocked K td e)) = 0"
      by (simp_all add: add_blocked_urls)
    with Cons.IH[of "add_blocked K td e"] False show ?thesis
      by (simp add: add_blocked_urls add_blocked_totalCount add_blocked_counts add_blocked_domain)
  qed
qed

lemma record_blocked_apply:
  "record_blocked K tabs t e tabId =
     (if t = tabId
      then Some (add_blocked K (case tabs tabId of None \<Rightarrow> new_tab_data [] | Some td \<Rightarrow> td) e)
      else tabs tabId)"
  by (simp add: record_blocked_def Let_def)

lemma record_all_tab:
  "record_all K tabs reqs tabId =
     (let es = map snd (filter (\<lambda>r. fst r = tabId) reqs)
      in if es = [] then tabs tabId
         else Some (foldl (add_blocked K)
                (case tabs tabId of None \<Rightarrow> new_tab_data [] | Some td \<Rightarrow> td) es))"
proof (induction reqs arbitrary: tabs)
  case Nil
  show ?case by (simp add: record_all_def)
next
  case (Cons r reqs)
  obtain t e where r: "r = (t, e)" by (cases r)
  have step: "record_all K tabs (r # reqs) = record_all K (record_blocked K tabs t e) reqs"
    by (simp add: record_all_def r)
  have "record_all K tabs (r # reqs) tabId = record_all K (record_blocked K tabs t e) reqs tabId"
    by (simp only: step)
  also have "\<dots> =
     (let es = map snd (filter (\<lambda>r. fst r = tabId) reqs)
      in if es = [] then record_blocked K tabs t e tabId
         else Some (foldl (add_blocked K)
                (case record_blocked K tabs t e tabId of
                   None \<Rightarrow> new_tab_data [] | Some td \<Rightarrow> td) es))"
    by (rule Cons.IH)
  also have "\<dots> =
     (let es = map snd (filter (\<lambda>r. fst r = tabId) (r # reqs))
      in if es = [] then tabs tabId
         else Some (foldl (add_blocked K)
                (case tabs tabId of None \<Rightarrow> new_tab_data [] | Some td \<Rightarrow> td) es))"
    by (simp add: record_blocked_apply r Let_def)
  finally show ?case .
qed

text \<open>
  With the cap 3, five matched requests of tab 1 with the timestamps 1 to 5 leave the
  entries with the timestamps 3, 2, 1: the list is full after the third, and the
  fourth and fifth are counted and not stored.
\<close>

lemma session_full_list_example:
  "map_option (map timestamp \<circ> urls)
     (record_all 3 Map.empty
       [(1, \<lparr>url = ''u1'', fullUrl = ''u1'', timestamp = 1, entry_category = Ad\<rparr>),
        (1, \<lparr>url = ''u2'', fullUrl = ''u2'', timestamp = 2, entry_category = Tracker\<rparr>),
        (1, \<lparr>url = ''u3'', fullUrl = ''u3'', timestamp = 3, entry_category = Ad\<rparr>),
        (1, \<lparr>url = ''u4'', fullUrl = ''u4'', timestamp = 4, entry_category = Ad\<rparr>),
        (1, \<lparr>url = ''u5'', fullUrl = ''u5'', timestamp = 5, entry_category = Tracker\<rparr>)] 1)
   = Some [3, 2, 1] \<and>
   map_option totalCount
     (record_all 3 Map.empty
       [(1, \<lparr>url = ''u1'', fullUrl = ''u1'', timestamp = 1, entry_category = Ad\<rparr>),
        (1, \<lparr>url = ''u2'', fullUrl = ''u2'', timestamp = 2, entry_category = Tracker\<rparr>),
        (1, \<lparr>url = ''u3'', fullUrl = ''u3'', timestamp = 3, entry_category = Ad\<rparr>),
        (1, \<lparr>url = ''u4'', fullUrl = ''u4'', timestamp = 4, entry_category = Ad\<rparr>),
        (1, \<lparr>url = ''u5'', fullUrl = ''u5'', timestamp = 5, entry_category = Tracker\<rparr>)] 1)
   = Some 5"
  by (simp add: record_all_def record_blocked_def add_blocked_def new_tab_data_def)

text \<open>
  C4. Let a session be absent or fresh (no entries, counts zero), and let \<open>es\<close> be the
  entries of its matched requests, in the order they arrived among the matched
  requests of all tabs, \<open>N\<close> of them, with no navigation or clearing in between.
  Afterwards the list holds exactly \<open>min N K\<close> entries, the most recent of them first
  (they are the first \<open>min N K\<close> of \<open>es\<close>, in reverse); \<open>totalCount\<close> is \<open>N\<close> and
  \<open>adCount + trackerCount\<close> is \<open>N\<close>. An entry is put in front of the list only when the
  list is shorter than \<open>K\<close>; the counts grow on every match.
\<close>

theorem session_counts_after_matches:
  assumes fresh: "tabs tabId = None \<or> tabs tabId = Some (new_tab_data d)"
    and es: "es = map snd (filter (\<lambda>r. fst r = tabId) reqs)"
  shows "(case record_all K tabs reqs tabId of
            None \<Rightarrow> tabs tabId = None \<and> es = []
          | Some td \<Rightarrow>
              urls td = rev (take K es) \<and> length (urls td) = min (length es) K \<and>
              totalCount td = length es \<and> adCount td + trackerCount td = length es) \<and>
         (\<forall>td e. urls (add_blocked K td e)
                    = (if length (urls td) < K then e # urls td else urls td) \<and>
                  totalCount (add_blocked K td e) = totalCount td + 1 \<and>
                  adCount (add_blocked K td e) + trackerCount (add_blocked K td e)
                    = adCount td + trackerCount td + 1)"
proof -
  let ?td0 = "case tabs tabId of None \<Rightarrow> new_tab_data [] | Some td \<Rightarrow> td"
  from fresh have z: "urls ?td0 = []" "totalCount ?td0 = 0" "adCount ?td0 = 0" "trackerCount ?td0 = 0"
    by (auto simp add: new_tab_data_def)
  have first: "case record_all K tabs reqs tabId of
            None \<Rightarrow> tabs tabId = None \<and> es = []
          | Some td \<Rightarrow>
              urls td = rev (take K es) \<and> length (urls td) = min (length es) K \<and>
              totalCount td = length es \<and> adCount td + trackerCount td = length es"
  proof (cases "es = []")
    case True
    with fresh es show ?thesis
      by (auto simp add: record_all_tab Let_def new_tab_data_def split: option.splits)
  next
    case False
    with es have "record_all K tabs reqs tabId = Some (foldl (add_blocked K) ?td0 es)"
      by (simp add: record_all_tab Let_def)
    with foldl_add_blocked[of K ?td0 es] z show ?thesis by (simp add: min_def)
  qed
  show ?thesis
    using first by (simp add: add_blocked_urls add_blocked_totalCount add_blocked_counts)
qed

theorem session_counts_after_matches_witness:
  "(case record_all 3 Map.empty
     [(1, \<lparr>url = ''u1'', fullUrl = ''u1'', timestamp = 1, entry_category = Ad\<rparr>),
      (2, \<lparr>url = ''v1'', fullUrl = ''v1'', timestamp = 2, entry_category = Ad\<rparr>),
      (1, \<lparr>url = ''u2'', fullUrl = ''u2'', timestamp = 3, entry_category = Tracker\<rparr>),
      (1, \<lparr>url = ''u3'', fullUrl = ''u3'', timestamp = 4, entry_category = Ad\<rparr>),
      (1, \<lparr>url = ''u4'', fullUrl = ''u4'', timestamp = 5, entry_category = Ad\<rparr>)] 1 of
      None \<Rightarrow> False
    | Some td \<Rightarrow> map timestamp (urls td) = [4, 3, 1] \<and> length (urls td) = 3 \<and>
        totalCount td = 4 \<and> adCount td + trackerCount td = 4)"
proof -
  let ?reqs = "[(1::int, \<lparr>url = ''u1'', fullUrl = ''u1'', timestamp = 1, entry_category = Ad\<rparr>),
      (2, \<lparr>url = ''v1'', fullUrl = ''v1'', timestamp = 2, entry_category = Ad\<rparr>),
      (1, \<lparr>url = ''u2'', fullUrl = ''u2'', timestamp = 3, entry_category = Tracker\<rparr>),
      (1, \<lparr>url = ''u3'', fullUrl = ''u3'', timestamp = 4, entry_category = Ad\<rparr>),
      (1, \<lparr>url = ''u4'', fullUrl = ''u4'', timestamp = 5, entry_category = Ad\<rparr>)]"
  have a: "(Map.empty :: int \<rightharpoonup> tab_data) 1 = None \<or> (Map.empty :: int \<rightharpoonup> tab_data) 1 = Some (new_tab_data [])"
    by simp
  have b: "[\<lparr>url = ''u1'', fullUrl = ''u1'', timestamp = 1, entry_category = Ad\<rparr>,
      \<lparr>url = ''u2'', fullUrl = ''u2'', timestamp = 3, entry_category = Tracker\<rparr>,
      \<lparr>url = ''u3'', fullUrl = ''u3'', timestamp = 4, entry_category = Ad\<rparr>,
      \<lparr>url = ''u4'', fullUrl = ''u4'', timestamp = 5, entry_category = Ad\<rparr>]
      = map snd (filter (\<lambda>r. fst r = 1) ?reqs)"
    by simp
  from session_counts_after_matches[OF a b, of 3, THEN conjunct1]
  show ?thesis by (simp split: option.splits)
qed

lemma scheduleStorageUpdate_frame:
  "storage (scheduleStorageUpdate now e) = storage e \<and>
   blockedUrlsByTab (scheduleStorageUpdate now e) = blockedUrlsByTab e"
  by (simp add: scheduleStorageUpdate_def setTimeout_def clearTimeout_def Let_def
      split: option.splits)

lemma updateBadgeForTab_frame:
  "storage (updateBadgeForTab now tabId e) = storage e \<and>
   blockedUrlsByTab (updateBadgeForTab now tabId e) = blockedUrlsByTab e"
  by (simp add: updateBadgeForTab_def setTimeout_def clearTimeout_def Let_def
      split: option.splits)

lemma global_counters_run_timeout:
  "global_counters (storage (run_timeout t e)) = global_counters (storage e)"
  by (simp add: run_timeout_def global_counters_def clearTimeout_def Let_def
      saveBlockedUrlsToStorage_def flushStorageUpdates_def
      split: option.splits prod.splits timeout_callback.splits)

text \<open>
  C5. When the tab of a session navigates to a URL whose hostname is not the domain of
  the session, the record of the session is replaced by a fresh one for the new
  hostname, with no entries and all counts zero. The other sessions stay as they are,
  the storage is not written, so the global counters are unchanged; they are also
  unchanged when a timeout fires afterwards, the flush that the handler scheduled
  among them.
\<close>

theorem navigation_resets_session:
  assumes "changeInfo_url = Some u" and "u \<noteq> []"
    and "hostname_of u = Some newDomain"
    and "blockedUrlsByTab e tabId = Some tabData"
    and "domain tabData \<noteq> newDomain"
  shows "blockedUrlsByTab (onUpdated hostname_of now tabId changeInfo_url e) tabId
           = Some \<lparr>domain = newDomain, urls = [], totalCount = 0, adCount = 0, trackerCount = 0\<rparr> \<and>
         (\<forall>t. t \<noteq> tabId \<longrightarrow>
            blockedUrlsByTab (onUpdated hostname_of now tabId changeInfo_url e) t
              = blockedUrlsByTab e t) \<and>
         storage (onUpdated hostname_of now tabId changeInfo_url e) = storage e \<and>
         global_counters (storage (onUpdated hostname_of now tabId changeInfo_url e))
           = global_counters (storage e) \<and>
         (\<forall>t. global_counters
                (storage (run_timeout t (onUpdated hostname_of now tabId changeInfo_url e)))
              = global_counters (storage e))"
proof -
  let ?e1 = "e\<lparr>blockedUrlsByTab := (blockedUrlsByTab e)(tabId \<mapsto> new_tab_data newDomain)\<rparr>"
  have upd: "onUpdated hostname_of now tabId changeInfo_url e
               = updateBadgeForTab now tabId (scheduleStorageUpdate now ?e1)"
    using assms by (simp add: onUpdated_def)
  have tabs: "blockedUrlsByTab (onUpdated hostname_of now tabId changeInfo_url e)
                = (blockedUrlsByTab e)(tabId \<mapsto> new_tab_data newDomain)"
    unfolding upd by (simp add: updateBadgeForTab_frame scheduleStorageUpdate_frame)
  have st: "storage (onUpdated hostname_of now tabId changeInfo_url e) = storage e"
    unfolding upd by (simp add: updateBadgeForTab_frame scheduleStorageUpdate_frame)
  show ?thesis
    unfolding tabs global_counters_run_timeout st
    by (simp add: new_tab_data_def)
qed

theorem navigation_resets_session_witness:
  "blockedUrlsByTab
     (onUpdated (\<lambda>u. if u = ''https://b.example/'' then Some ''b.example'' else None) 10 7
        (Some ''https://b.example/'')
        ((new_engine (empty_storage\<lparr>totalBlockedAllTime := Some 5\<rparr>) :: nat engine)
           \<lparr>blockedUrlsByTab := [7 \<mapsto> \<lparr>domain = ''a.example'', urls = [], totalCount = 5,
                                        adCount = 3, trackerCount = 2\<rparr>]\<rparr>)) 7
     = Some \<lparr>domain = ''b.example'', urls = [], totalCount = 0, adCount = 0, trackerCount = 0\<rparr> \<and>
   totalBlockedAllTime (storage
     (onUpdated (\<lambda>u. if u = ''https://b.example/'' then Some ''b.example'' else None) 10 7
        (Some ''https://b.example/'')
        ((new_engine (empty_storage\<lparr>totalBlockedAllTime := Some 5\<rparr>) :: nat engine)
           \<lparr>blockedUrlsByTab := [7 \<mapsto> \<lparr>domain = ''a.example'', urls = [], totalCount = 5,
                                        adCount = 3, trackerCount = 2\<rparr>]\<rparr>))) = Some 5"
proof -
  let ?h = "\<lambda>u. if u = ''https://b.example/'' then Some ''b.example'' else None"
  let ?td = "\<lparr>domain = ''a.example'', urls = [], totalCount = 5, adCount = 3, trackerCount = 2\<rparr>"
  let ?e = "(new_engine (empty_storage\<lparr>totalBlockedAllTime := Some 5\<rparr>) :: nat engine)
           \<lparr>blockedUrlsByTab := [7 \<mapsto> ?td]\<rparr>"
  have a: "Some ''https://b.example/'' = Some ''https://b.example/''" by simp
  have b: "''https://b.example/'' \<noteq> []" by simp
  have c: "?h ''https://b.example/'' = Some ''b.example''" by simp
  have d: "blockedUrlsByTab ?e 7 = Some ?td" by simp
  have f: "domain ?td \<noteq> ''b.example''" by simp
  note T = navigation_resets_session[of "Some ''https://b.example/''" "''https://b.example/''"
      ?h "''b.example''" ?e 7 ?td 10, OF a b c d f]
  have s: "totalBlockedAllTime (storage ?e) = Some 5"
    by (simp add: new_engine_def empty_storage_def)
  from T[THEN conjunct1] T[THEN conjunct2, THEN conjunct2, THEN conjunct1] s
  show ?thesis by simp
qed

section \<open>The flush timer\<close>

lemma flush_timeouts_clearTimeout:
  "flush_timeouts (clearTimeout t e) = filter (\<lambda>x. fst x \<noteq> t) (flush_timeouts e)"
  by (simp add: flush_timeouts_def clearTimeout_def conj_commute)

lemma timers_ok_new: "timers_ok (new_engine st)"
  by (simp add: timers_ok_def new_engine_def flush_timeouts_def)

lemma clear_other_flush:
  assumes "\<forall>x\<in>set (flush_timeouts e). fst x \<noteq> t"
  shows "flush_timeouts (clearTimeout t e) = flush_timeouts e"
  using assms by (simp add: flush_timeouts_clearTimeout filter_id_conv)

lemma in_flush_timeouts: "x \<in> set (flush_timeouts e) \<Longrightarrow> x \<in> set (timeouts e)"
  by (simp add: flush_timeouts_def)

lemma timers_ok_scheduleBatched:
  assumes "timers_ok e"
  shows "timers_ok (scheduleBatchedStorageUpdate now tabId e)"
proof (cases "storageUpdateTimer e")
  case (Some t)
  with assms show ?thesis
    by (simp add: scheduleBatchedStorageUpdate_def timers_ok_def flush_timeouts_def)
next
  case None
  with assms have none: "flush_timeouts e = []" by (simp add: timers_ok_def)
  have fresh: "\<forall>x\<in>set (timeouts e). fst x < next_timeout e"
    using assms by (simp add: timers_ok_def)
  then have "next_timeout e \<notin> fst ` set (timeouts e)" by auto
  with assms None none fresh show ?thesis
    by (auto simp add: scheduleBatchedStorageUpdate_def setTimeout_def timers_ok_def
        flush_timeouts_def is_flush_def less_Suc_eq)
qed

lemma timers_ok_scheduleStorageUpdate:
  assumes "timers_ok e"
  shows "timers_ok (scheduleStorageUpdate now e)"
proof -
  let ?e1 = "case storageUpdateTimer e of Some t \<Rightarrow> clearTimeout t e | None \<Rightarrow> e"
  have fl: "flush_timeouts ?e1 = []"
    using assms by (auto simp add: timers_ok_def flush_timeouts_clearTimeout split: option.splits)
  have ts: "set (timeouts ?e1) \<subseteq> set (timeouts e)" "next_timeout ?e1 = next_timeout e"
    "badgeUpdateTimers ?e1 = badgeUpdateTimers e"
    by (auto simp add: clearTimeout_def split: option.splits)
  have di: "distinct (map fst (timeouts ?e1))"
    using assms by (auto simp add: timers_ok_def clearTimeout_def distinct_map_filter
        split: option.splits)
  have fresh: "\<forall>x\<in>set (timeouts ?e1). fst x < next_timeout e"
    using assms ts by (auto simp add: timers_ok_def)
  then have notin: "next_timeout e \<notin> fst ` set (timeouts ?e1)" by auto
  have badge: "\<forall>tabId t. badgeUpdateTimers e tabId = Some t \<longrightarrow> t < next_timeout e"
    using assms by (simp add: timers_ok_def)
  have eq: "scheduleStorageUpdate now e =
      ?e1\<lparr>timeouts := timeouts ?e1 @ [(next_timeout e, now + STORAGE_BATCH_DELAY, SaveBlockedUrls)],
          next_timeout := next_timeout e + 1, storageUpdateTimer := Some (next_timeout e)\<rparr>"
    by (simp add: scheduleStorageUpdate_def setTimeout_def ts Let_def)
  have fl': "flush_timeouts (scheduleStorageUpdate now e)
      = [(next_timeout e, now + STORAGE_BATCH_DELAY, SaveBlockedUrls)]"
    using fl unfolding eq by (simp add: flush_timeouts_def is_flush_def)
  show ?thesis
    unfolding timers_ok_def fl'
    using fresh di notin badge ts unfolding eq
    by (auto simp add: less_Suc_eq)
qed

lemma timers_ok_updateBadgeForTab:
  assumes "timers_ok e"
  shows "timers_ok (updateBadgeForTab now tabId e)"
proof -
  let ?e1 = "case badgeUpdateTimers e tabId of Some t \<Rightarrow> clearTimeout t e | None \<Rightarrow> e"
  have fl: "flush_timeouts ?e1 = flush_timeouts e"
    using assms by (auto simp add: timers_ok_def clear_other_flush split: option.splits)
  have ts: "set (timeouts ?e1) \<subseteq> set (timeouts e)" "next_timeout ?e1 = next_timeout e"
    "badgeUpdateTimers ?e1 = badgeUpdateTimers e" "storageUpdateTimer ?e1 = storageUpdateTimer e"
    by (auto simp add: clearTimeout_def split: option.splits)
  have di: "distinct (map fst (timeouts ?e1))"
    using assms by (auto simp add: timers_ok_def clearTimeout_def distinct_map_filter
        split: option.splits)
  have fresh: "\<forall>x\<in>set (timeouts ?e1). fst x < next_timeout e"
    using assms ts by (auto simp add: timers_ok_def)
  then have notin: "next_timeout e \<notin> fst ` set (timeouts ?e1)" by auto
  have flfresh: "\<forall>x\<in>set (flush_timeouts e). fst x < next_timeout e"
    using assms by (auto simp add: timers_ok_def dest: in_flush_timeouts)
  have badge: "\<forall>tabId t. badgeUpdateTimers e tabId = Some t \<longrightarrow>
      t < next_timeout e \<and> (\<forall>x\<in>set (flush_timeouts e). fst x \<noteq> t)"
    using assms by (simp add: timers_ok_def)
  have st: "case storageUpdateTimer e of None \<Rightarrow> flush_timeouts e = []
      | Some t \<Rightarrow> \<exists>due cb. flush_timeouts e = [(t, due, cb)]"
    using assms by (simp add: timers_ok_def)
  have eq: "updateBadgeForTab now tabId e =
      ?e1\<lparr>timeouts := timeouts ?e1 @ [(next_timeout e, now + BADGE_UPDATE_DELAY, BadgeUpdate tabId)],
          next_timeout := next_timeout e + 1,
          badgeUpdateTimers := (badgeUpdateTimers e)(tabId \<mapsto> next_timeout e)\<rparr>"
    by (simp add: updateBadgeForTab_def setTimeout_def ts Let_def)
  have fl': "flush_timeouts (updateBadgeForTab now tabId e) = flush_timeouts e"
    using fl unfolding eq by (simp add: flush_timeouts_def is_flush_def)
  show ?thesis
    unfolding timers_ok_def fl'
    using fresh di notin badge ts st flfresh unfolding eq
    by (auto simp add: less_Suc_eq)
qed

lemma same_id_same_timeout:
  assumes "distinct (map fst ts)" "x \<in> set ts" "y \<in> set ts" "fst x = fst y"
  shows "x = y"
  using assms by (meson eq_key_imp_eq_value prod.expand distinct_map inj_onD)

lemma timers_ok_run_timeout:
  assumes "timers_ok e"
  shows "timers_ok (run_timeout t e)"
proof (cases "find (\<lambda>x. fst x = t) (timeouts e)")
  case None
  with assms show ?thesis by (simp add: run_timeout_def)
next
  case (Some x)
  obtain i due cb where x: "x = (i, due, cb)" by (cases x)
  from Some have xin: "x \<in> set (timeouts e)" and xt: "fst x = t"
    by (auto simp add: find_Some_iff)
  let ?e1 = "clearTimeout t e"
  have di: "distinct (map fst (timeouts e))" using assms by (simp add: timers_ok_def)
  have base: "(\<forall>y\<in>set (timeouts ?e1). fst y < next_timeout e) \<and>
      distinct (map fst (timeouts ?e1)) \<and> next_timeout ?e1 = next_timeout e \<and>
      badgeUpdateTimers ?e1 = badgeUpdateTimers e \<and>
      storageUpdateTimer ?e1 = storageUpdateTimer e"
    using assms by (auto simp add: timers_ok_def clearTimeout_def distinct_map_filter)
  have badge: "\<forall>tabId t'. badgeUpdateTimers e tabId = Some t' \<longrightarrow>
      t' < next_timeout e \<and> (\<forall>y\<in>set (flush_timeouts e). fst y \<noteq> t')"
    using assms by (simp add: timers_ok_def)
  have st: "case storageUpdateTimer e of None \<Rightarrow> flush_timeouts e = []
      | Some t' \<Rightarrow> \<exists>due cb. flush_timeouts e = [(t', due, cb)]"
    using assms by (simp add: timers_ok_def)
  show ?thesis
  proof (cases "is_flush cb")
    case True
    with xin x have "x \<in> set (flush_timeouts e)" by (simp add: flush_timeouts_def)
    with st xt have fl: "\<exists>due cb. flush_timeouts e = [(t, due, cb)]"
      by (cases "storageUpdateTimer e") auto
    then have fl1: "flush_timeouts ?e1 = []"
      by (auto simp add: flush_timeouts_clearTimeout)
    have r: "run_timeout t e = (saveBlockedUrlsToStorage ?e1)\<lparr>storageUpdateTimer := None\<rparr> \<or>
             run_timeout t e = (flushStorageUpdates ?e1)\<lparr>storageUpdateTimer := None\<rparr>"
      using Some x True by (cases cb) (simp_all add: run_timeout_def is_flush_def Let_def)
    have keep: "timeouts (saveBlockedUrlsToStorage ?e1) = timeouts ?e1"
      "timeouts (flushStorageUpdates ?e1) = timeouts ?e1"
      "next_timeout (saveBlockedUrlsToStorage ?e1) = next_timeout ?e1"
      "next_timeout (flushStorageUpdates ?e1) = next_timeout ?e1"
      "badgeUpdateTimers (saveBlockedUrlsToStorage ?e1) = badgeUpdateTimers ?e1"
      "badgeUpdateTimers (flushStorageUpdates ?e1) = badgeUpdateTimers ?e1"
      by (simp_all add: saveBlockedUrlsToStorage_def flushStorageUpdates_def)
    from r show ?thesis
    proof
      assume "run_timeout t e = (saveBlockedUrlsToStorage ?e1)\<lparr>storageUpdateTimer := None\<rparr>"
      then show ?thesis
        using base badge fl1 keep
        by (simp add: timers_ok_def flush_timeouts_def)
    next
      assume "run_timeout t e = (flushStorageUpdates ?e1)\<lparr>storageUpdateTimer := None\<rparr>"
      then show ?thesis
        using base badge fl1 keep
        by (simp add: timers_ok_def flush_timeouts_def)
    qed
  next
    case False
    then obtain tab where cb: "cb = BadgeUpdate tab" by (cases cb) (simp_all add: is_flush_def)
    have "fst y \<noteq> t" if "y \<in> set (flush_timeouts e)" for y
    proof
      assume "fst y = t"
      with that xin xt di have "x = y"
        by (auto intro: same_id_same_timeout dest: in_flush_timeouts)
      with that x False show False by (simp add: flush_timeouts_def)
    qed
    then have fl1: "flush_timeouts ?e1 = flush_timeouts e"
      by (simp add: clear_other_flush)
    have r: "run_timeout t e = ?e1\<lparr>badgeUpdateTimers := (badgeUpdateTimers ?e1)(tab := None)\<rparr>"
      using Some x cb by (simp add: run_timeout_def Let_def)
    have fl2: "flush_timeouts (run_timeout t e) = flush_timeouts e"
      unfolding r using fl1 by (simp add: flush_timeouts_def)
    show ?thesis
      unfolding timers_ok_def fl2
      using base badge st unfolding r
      by auto
  qed
qed

lemma timers_ok_batched_step: "timers_ok e \<Longrightarrow> timers_ok (batched_step e ev)"
  by (cases ev)
     (simp_all add: timers_ok_scheduleBatched timers_ok_updateBadgeForTab timers_ok_run_timeout)

lemma timers_ok_v18_step: "timers_ok e \<Longrightarrow> timers_ok (v18_step e ev)"
  by (cases ev)
     (simp_all add: timers_ok_scheduleStorageUpdate timers_ok_updateBadgeForTab
        timers_ok_run_timeout)

lemma timers_ok_batched_run: "timers_ok e \<Longrightarrow> timers_ok (foldl batched_step e evs)"
  by (induction evs arbitrary: e) (simp_all add: timers_ok_batched_step)

lemma timers_ok_v18_run: "timers_ok e \<Longrightarrow> timers_ok (foldl v18_step e evs)"
  by (induction evs arbitrary: e) (simp_all add: timers_ok_v18_step)

lemma timers_ok_one_flush: "timers_ok e \<Longrightarrow> length (flush_timeouts e) \<le> 1"
  by (auto simp add: timers_ok_def split: option.splits)

lemma scheduleBatched_pending:
  assumes "storageUpdateTimer e = Some t"
  shows "scheduleBatchedStorageUpdate now tabId e
           = e\<lparr>pendingStorageUpdates := insert tabId (pendingStorageUpdates e)\<rparr>"
  using assms by (simp add: scheduleBatchedStorageUpdate_def)

lemma scheduleBatched_idle:
  assumes "timers_ok e" "storageUpdateTimer e = None"
  shows "flush_timeouts (scheduleBatchedStorageUpdate now tabId e)
           = [(next_timeout e, now + STORAGE_BATCH_DELAY, FlushUpdates)]"
proof -
  from assms have "flush_timeouts e = []" by (simp add: timers_ok_def)
  with assms(2) show ?thesis
    by (simp add: scheduleBatchedStorageUpdate_def setTimeout_def flush_timeouts_def is_flush_def)
qed

lemma scheduleStorageUpdate_rearms:
  assumes "timers_ok e"
  shows "flush_timeouts (scheduleStorageUpdate now e)
           = [(next_timeout e, now + STORAGE_BATCH_DELAY, SaveBlockedUrls)]"
proof -
  let ?e1 = "case storageUpdateTimer e of Some t \<Rightarrow> clearTimeout t e | None \<Rightarrow> e"
  have fl: "flush_timeouts ?e1 = []"
    using assms by (auto simp add: timers_ok_def flush_timeouts_clearTimeout split: option.splits)
  have ts: "next_timeout ?e1 = next_timeout e"
    by (auto simp add: clearTimeout_def split: option.splits)
  have eq: "scheduleStorageUpdate now e =
      ?e1\<lparr>timeouts := timeouts ?e1 @ [(next_timeout e, now + STORAGE_BATCH_DELAY, SaveBlockedUrls)],
          next_timeout := next_timeout e + 1, storageUpdateTimer := Some (next_timeout e)\<rparr>"
    by (simp add: scheduleStorageUpdate_def setTimeout_def ts Let_def)
  show ?thesis using fl unfolding eq by (simp add: flush_timeouts_def is_flush_def)
qed

lemma timers_ok_timer_iff:
  "timers_ok e \<Longrightarrow> storageUpdateTimer e = None \<longleftrightarrow> flush_timeouts e = []"
  by (auto simp add: timers_ok_def split: option.splits)

text \<open>
  C7 (as the claim states it, refuted on V1.8). In V1.8 a first call of
  \<^verbatim>\<open>scheduleStorageUpdate\<close> at time 0 sets the flush for time 1000; a second call at
  time 500, while that timer is pending, clears it and sets a new one for time 1500.
\<close>

theorem flush_delay_reset_counterexample:
  "map (fst \<circ> snd)
     (flush_timeouts (foldl v18_step (new_engine empty_storage :: nat engine) [Mark 0 1]))
     = [1000] \<and>
   map (fst \<circ> snd)
     (flush_timeouts (foldl v18_step (new_engine empty_storage :: nat engine)
        [Mark 0 1, Mark 500 1]))
     = [1500]"
  by (simp add: new_engine_def scheduleStorageUpdate_def setTimeout_def clearTimeout_def
      flush_timeouts_def is_flush_def STORAGE_BATCH_DELAY_def)

text \<open>
  C7 (amended). In both versions, whatever marks, badge requests and timeouts happen
  from the start, at most one flush timeout is pending, and \<^verbatim>\<open>storageUpdateTimer\<close> is
  \<^verbatim>\<open>null\<close> exactly when none is. In the version that keeps the
  set of tabs to write, a mark while the flush is pending only adds the tab to the
  set: the pending timeouts, and so the time the flush is due, stay as the first mark
  set them, which is \<^verbatim>\<open>STORAGE_BATCH_DELAY\<close> after that mark. In V1.8 every call
  cancels the pending flush and sets a new one, due \<^verbatim>\<open>STORAGE_BATCH_DELAY\<close> after
  this call.
\<close>

theorem flush_timer_single_and_due:
  assumes eb: "eb = foldl batched_step (new_engine st) evs"
    and ev: "ev = foldl v18_step (new_engine st) evs"
  shows "length (flush_timeouts eb) \<le> 1 \<and> length (flush_timeouts ev) \<le> 1 \<and>
         (\<forall>t now tabId. storageUpdateTimer eb = Some t \<longrightarrow>
            scheduleBatchedStorageUpdate now tabId eb
              = eb\<lparr>pendingStorageUpdates := insert tabId (pendingStorageUpdates eb)\<rparr> \<and>
            timeouts (scheduleBatchedStorageUpdate now tabId eb) = timeouts eb) \<and>
         (\<forall>now tabId. storageUpdateTimer eb = None \<longrightarrow>
            flush_timeouts (scheduleBatchedStorageUpdate now tabId eb)
              = [(next_timeout eb, now + STORAGE_BATCH_DELAY, FlushUpdates)]) \<and>
         (\<forall>now. flush_timeouts (scheduleStorageUpdate now ev)
              = [(next_timeout ev, now + STORAGE_BATCH_DELAY, SaveBlockedUrls)]) \<and>
         (storageUpdateTimer eb = None \<longleftrightarrow> flush_timeouts eb = []) \<and>
         (storageUpdateTimer ev = None \<longleftrightarrow> flush_timeouts ev = [])"
proof -
  have okb: "timers_ok eb" unfolding eb by (rule timers_ok_batched_run[OF timers_ok_new])
  have okv: "timers_ok ev" unfolding ev by (rule timers_ok_v18_run[OF timers_ok_new])
  show ?thesis
    using timers_ok_one_flush[OF okb] timers_ok_one_flush[OF okv]
      scheduleBatched_idle[OF okb] scheduleStorageUpdate_rearms[OF okv]
      timers_ok_timer_iff[OF okb] timers_ok_timer_iff[OF okv]
    by (simp add: scheduleBatched_pending)
qed

theorem flush_timer_single_and_due_witness:
  "map (fst \<circ> snd)
     (flush_timeouts (foldl batched_step (new_engine empty_storage :: nat engine) [Mark 0 1]))
     = [1000] \<and>
   timeouts (scheduleBatchedStorageUpdate 500 2
       (foldl batched_step (new_engine empty_storage :: nat engine) [Mark 0 1]))
     = timeouts (foldl batched_step (new_engine empty_storage :: nat engine) [Mark 0 1]) \<and>
   length (flush_timeouts (foldl v18_step (new_engine empty_storage :: nat engine) [Mark 0 1])) \<le> 1"
proof -
  let ?eb = "foldl batched_step (new_engine empty_storage :: nat engine) [Mark 0 1]"
  let ?ev = "foldl v18_step (new_engine empty_storage :: nat engine) [Mark 0 1]"
  note T = flush_timer_single_and_due[of ?eb empty_storage "[Mark 0 1]" ?ev, OF refl refl]
  have p: "storageUpdateTimer ?eb = Some 1"
    by (simp add: new_engine_def scheduleBatchedStorageUpdate_def setTimeout_def)
  have d: "map (fst \<circ> snd) (flush_timeouts ?eb) = [1000]"
    by (simp add: new_engine_def scheduleBatchedStorageUpdate_def setTimeout_def
        flush_timeouts_def is_flush_def STORAGE_BATCH_DELAY_def)
  from T[THEN conjunct2, THEN conjunct2, THEN conjunct1, rule_format, OF p, of 500 2]
  have k: "timeouts (scheduleBatchedStorageUpdate 500 2 ?eb) = timeouts ?eb" by (rule conjunct2)
  from T[THEN conjunct2, THEN conjunct1] d k show ?thesis by (intro conjI)
qed

section \<open>Two updates of the all-time total\<close>

lemma total_totals_callback:
  "totalBlockedAllTime (totals_callback add_time result st)
     = Some (or_zero (totalBlockedAllTime result) + 1)"
  by (simp add: totals_callback_def Let_def)

text \<open>
  C8. The update of the all-time total is a read followed, in a later task, by a write
  of the total that was read plus 1. When the reads of two matched requests are both
  served before either callback runs, both callbacks write the same total: after two
  matches the stored total has grown by 1. When the second read is served after the
  first callback, it grows by 2.
\<close>

theorem global_total_lost_update:
  "(\<exists>s'. counter_run add_time \<lparr>cs_storage = st, waiting = Map.empty\<rparr>
            [StorageGet 1, StorageGet 2, Callback 1, Callback 2] = Some s' \<and>
          totalBlockedAllTime (cs_storage s') = Some (or_zero (totalBlockedAllTime st) + 1) \<and>
          waiting s' = Map.empty) \<and>
   (\<exists>s'. counter_run add_time \<lparr>cs_storage = st, waiting = Map.empty\<rparr>
            [StorageGet 1, Callback 1, StorageGet 2, Callback 2] = Some s' \<and>
          totalBlockedAllTime (cs_storage s') = Some (or_zero (totalBlockedAllTime st) + 2) \<and>
          waiting s' = Map.empty)"
  by (simp add: total_totals_callback or_zero_def fun_upd_twist)

theorem global_total_lost_update_witness:
  "\<exists>s'. counter_run (\<lambda>x. case x of None \<Rightarrow> (12::nat) | Some t \<Rightarrow> t + 12)
            \<lparr>cs_storage = empty_storage\<lparr>totalBlockedAllTime := Some 41\<rparr>, waiting = Map.empty\<rparr>
            [StorageGet 1, StorageGet 2, Callback 1, Callback 2] = Some s' \<and>
        totalBlockedAllTime (cs_storage s') = Some 42 \<and> waiting s' = Map.empty"
  using global_total_lost_update[of "\<lambda>x. case x of None \<Rightarrow> (12::nat) | Some t \<Rightarrow> t + 12"
      "empty_storage\<lparr>totalBlockedAllTime := Some 41\<rparr>", THEN conjunct1]
  by (simp add: or_zero_def)

end
